theory Spec2Isabelle
  imports Complex_Main "HOL-Library.Sublist" "HOL-Library.AList"
begin

section \<open>Text primitives of the platform\<close>

text \<open>
  The pipeline is written in TypeScript; its texts are sequences of code units.  They are
  modelled as \<^typ>\<open>string\<close>, that is, over the code units below 256 (ASCII and Latin-1).
  The functions of this section model the string methods the source calls, restricted to
  that alphabet.
\<close>

definition is_space :: "char \<Rightarrow> bool" where
  \<comment> \<open>the class \<open>\s\<close> of a regular expression, which is also what \<open>trim\<close> removes:
      TAB, LF, VT, FF, CR, SPACE and NBSP\<close>
  "is_space c = (of_char c \<in> {9, 10, 11, 12, 13, 32, 160 :: nat})"

definition lower_char :: "char \<Rightarrow> char" where
  "lower_char c =
     (let n = (of_char c :: nat) in
      if (65 \<le> n \<and> n \<le> 90) \<or> (192 \<le> n \<and> n \<le> 222 \<and> n \<noteq> 215)
      then char_of (n + 32) else c)"

definition toLowerCase :: "string \<Rightarrow> string" where
  "toLowerCase s = map lower_char s"

definition trim :: "string \<Rightarrow> string" where
  "trim s = rev (dropWhile is_space (rev (dropWhile is_space s)))"

fun str_includes :: "string \<Rightarrow> string \<Rightarrow> bool" where
  \<comment> \<open>\<open>s.includes(t)\<close>: \<open>t\<close> occurs in \<open>s\<close> as a contiguous substring\<close>
  "str_includes [] t = (t = [])"
| "str_includes (c # cs) t = (prefix t (c # cs) \<or> str_includes cs t)"

definition substring :: "string \<Rightarrow> nat \<Rightarrow> nat \<Rightarrow> string" where
  \<comment> \<open>\<open>s.substring(a, b)\<close>: both indices are clamped to the length and swapped when
      \<open>a > b\<close>\<close>
  "substring s a b =
     (let a' = min a (length s); b' = min b (length s)
      in take (max a' b' - min a' b') (drop (min a' b') s))"

fun replace_spaces :: "string \<Rightarrow> string" where
  \<comment> \<open>\<open>s.replace(/\s+/g, ' ')\<close>: every maximal run of white space becomes one space\<close>
  "replace_spaces [] = []"
| "replace_spaces (c # cs) =
     (if is_space c
      then (if cs \<noteq> [] \<and> is_space (hd cs) then replace_spaces cs
            else CHR '' '' # replace_spaces cs)
      else c # replace_spaces cs)"

fun split_spaces :: "string \<Rightarrow> string list" where
  \<comment> \<open>\<open>s.split(/\s+/)\<close>: the pieces between maximal runs of white space; a run at
      either end leaves an empty piece there\<close>
  "split_spaces [] = [[]]"
| "split_spaces (c # cs) =
     (if is_space c
      then (if cs \<noteq> [] \<and> is_space (hd cs) then split_spaces cs
            else [] # split_spaces cs)
      else (case split_spaces cs of
              [] \<Rightarrow> [[c]]
            | l # ls \<Rightarrow> (c # l) # ls))"

section \<open>Duplicate Detector: the similarity function\<close>

text \<open>
  \<open>calculateSimilarity\<close> of \<open>app/chat/[sessionId]/page.tsx\<close>.  It returns a JavaScript
  number; every value it returns is \<open>1.0\<close>, \<open>0.9\<close>, \<open>0\<close> or the quotient of two natural
  numbers bounded by the lengths of the texts, so the result is modelled as a rational.
  Rounding to a double is monotone and the denominators stay far below \<open>2^50\<close>, so the
  comparisons of the result with \<open>0.8\<close> and with \<open>1\<close> come out as for the rational.
\<close>

definition long_words :: "string \<Rightarrow> string list" where
  \<comment> \<open>\<open>s.split(/\s+/).filter(w => w.length > 3)\<close>\<close>
  "long_words s = filter (\<lambda>w. length w > 3) (split_spaces s)"

definition calculateSimilarity :: "string \<Rightarrow> string \<Rightarrow> rat" where
  "calculateSimilarity str1 str2 =
     (let longer = (if length str1 > length str2 then str1 else str2);
          shorter = (if length str1 > length str2 then str2 else str1)
      in if length longer = 0 then 1
         else
           let longerNormalized = replace_spaces (toLowerCase longer);
               shorterNormalized = replace_spaces (toLowerCase shorter)
           in if str_includes longerNormalized shorterNormalized \<or>
                 str_includes shorterNormalized
                   (substring longerNormalized 0 (length shorterNormalized))
              then 9 / 10
              else
                let words1 = long_words longerNormalized;
                    words2 = long_words shorterNormalized
                in if length words1 = 0 \<or> length words2 = 0 then 0
                   else
                     let commonWords = filter (\<lambda>w. w \<in> set words2) words1
                     in of_nat (length commonWords * 2) /
                        of_nat (length words1 + length words2))"

section \<open>Formula Normalizer\<close>

text \<open>
  \<open>cleanLaTeX\<close>, which the chat page imports from \<open>lib/latex-cleaner\<close>: the variant that
  converts the \<open><<< >>>\<close> delimiters first.  Each regular expression of the source is
  modelled by a matcher anchored at the start of its argument, which returns the
  replacement text and the number of characters the match consumes.  A greedy negated
  class followed by a literal matches only with its maximal run, so every matcher is
  deterministic.
\<close>

definition BS :: string where
  \<comment> \<open>the backslash\<close>
  "BS = [CHR 0x5C]"

function replace_global :: "(string \<Rightarrow> (string \<times> nat) option) \<Rightarrow> string \<Rightarrow> string" where
  \<comment> \<open>\<open>s.replace(/re/g, f)\<close> for an expression that matches no empty string: scan left to
      right, replace the leftmost match, continue behind it\<close>
  "replace_global m [] = []"
| "replace_global m (c # cs) =
     (case m (c # cs) of
        Some (r, n) \<Rightarrow> r @ replace_global m (drop (n - 1) cs)
      | None \<Rightarrow> c # replace_global m cs)"
  by pat_completeness auto
termination
  by (relation "measure (\<lambda>(m, s). length s)") auto

definition not_gt :: "char \<Rightarrow> bool" where
  "not_gt c = (c \<noteq> CHR ''>'')"

definition not_dollar :: "char \<Rightarrow> bool" where
  "not_dollar c = (c \<noteq> CHR ''$'')"

definition isDisplayMath :: "string \<Rightarrow> bool" where
  "isDisplayMath trimmed =
     (str_includes trimmed (BS @ ''frac'') \<or>
      str_includes trimmed (BS @ ''sum'') \<or>
      str_includes trimmed (BS @ ''bar'') \<or>
      str_includes trimmed (BS @ ''times'') \<or>
      str_includes trimmed (BS @ ''rightarrow'') \<or>
      str_includes trimmed (BS @ ''cdot'') \<or>
      (str_includes trimmed ''='' \<and> length trimmed > 15) \<or>
      str_includes trimmed ''\<newline>'' \<or>
      length trimmed > 40)"

definition wrap_formula :: "string \<Rightarrow> string" where
  \<comment> \<open>the callback of Step 0\<close>
  "wrap_formula formula =
     (let trimmed = trim formula
      in if isDisplayMath trimmed then ''$$'' @ trimmed @ ''$$''
         else ''$'' @ trimmed @ ''$'')"

definition match_formula :: "string \<Rightarrow> (string \<times> nat) option" where
  \<comment> \<open>\<open>/<<<([^>]+)>>>/\<close>\<close>
  "match_formula s =
     (if prefix ''<<<'' s
      then let formula = takeWhile not_gt (drop 3 s);
               rest = dropWhile not_gt (drop 3 s)
           in if formula \<noteq> [] \<and> prefix ''>>>'' rest
              then Some (wrap_formula formula, 3 + length formula + 3)
              else None
      else None)"

definition convert_delimiters :: "string \<Rightarrow> string" where
  \<comment> \<open>Step 0\<close>
  "convert_delimiters s = replace_global match_formula s"

definition match_role :: "string \<Rightarrow> nat option" where
  \<comment> \<open>\<open>/(assistant|Assistant):\s*/i\<close>: the length of the match\<close>
  "match_role s =
     (if toLowerCase (take 10 s) = ''assistant:''
      then Some (10 + length (takeWhile is_space (drop 10 s)))
      else None)"

definition strip_role_start :: "string \<Rightarrow> string" where
  \<comment> \<open>Step 1, first replacement: \<open>/^(assistant|Assistant):\s*/i\<close>, once\<close>
  "strip_role_start s = (case match_role s of Some n \<Rightarrow> drop n s | None \<Rightarrow> s)"

definition match_role_line :: "string \<Rightarrow> (string \<times> nat) option" where
  \<comment> \<open>\<open>/\n(assistant|Assistant):\s*/gi\<close>, replaced by a line break\<close>
  "match_role_line s =
     (case s of
        [] \<Rightarrow> None
      | c # cs \<Rightarrow>
          if c = CHR 0x0A
          then (case match_role cs of Some n \<Rightarrow> Some (''\<newline>'', 1 + n) | None \<Rightarrow> None)
          else None)"

definition strip_role_lines :: "string \<Rightarrow> string" where
  "strip_role_lines s = replace_global match_role_line s"

definition match_display_single :: "string \<Rightarrow> (string \<times> nat) option" where
  \<comment> \<open>Step 2, pattern 1: \<open>/\$\$([^$]+)\$(?!\$)/g\<close>\<close>
  "match_display_single s =
     (if prefix ''$$'' s
      then let content = takeWhile not_dollar (drop 2 s);
               rest = dropWhile not_dollar (drop 2 s)
           in if content \<noteq> [] \<and> prefix ''$'' rest \<and> \<not> prefix ''$$'' rest
              then Some (''$$'' @ content @ ''$$'', 2 + length content + 1)
              else None
      else None)"

definition match_inline_double :: "string \<Rightarrow> (string \<times> nat) option" where
  \<comment> \<open>Step 2, pattern 2, first alternative: \<open>/[^$]\$([^$]+)\$\$/\<close>\<close>
  "match_inline_double s =
     (case s of
        [] \<Rightarrow> None
      | bef # s' \<Rightarrow>
          if not_dollar bef \<and> prefix ''$'' s'
          then let content = takeWhile not_dollar (drop 1 s');
                   rest = dropWhile not_dollar (drop 1 s')
               in if content \<noteq> [] \<and> prefix ''$$'' rest
                  then Some (bef # ''$'' @ content @ ''$'', 1 + 1 + length content + 2)
                  else None
          else None)"

definition match_inline_double_start :: "string \<Rightarrow> (string \<times> nat) option" where
  \<comment> \<open>Step 2, pattern 2, second alternative, at the start of the text only:
      \<open>/^\$([^$]+)\$\$/\<close>\<close>
  "match_inline_double_start s =
     (if prefix ''$'' s
      then let content = takeWhile not_dollar (drop 1 s);
               rest = dropWhile not_dollar (drop 1 s)
           in if content \<noteq> [] \<and> prefix ''$$'' rest
              then Some (''$'' @ content @ ''$'', 1 + length content + 2)
              else None
      else None)"

definition fix_inline_double :: "string \<Rightarrow> string" where
  \<comment> \<open>\<open>s.replace(/([^$]|^)\$([^$]+)\$\$/g, ...)\<close>: at index 0 the first alternative
      needs a character other than the dollar sign and the second one a dollar sign, so
      at most one of them applies; behind index 0 only the first one can match\<close>
  "fix_inline_double s =
     (case match_inline_double_start s of
        Some (r, n) \<Rightarrow> r @ replace_global match_inline_double (drop n s)
      | None \<Rightarrow> replace_global match_inline_double s)"

fun find_sub :: "string \<Rightarrow> string \<Rightarrow> nat option" where
  "find_sub t [] = (if t = [] then Some 0 else None)"
| "find_sub t (c # cs) =
     (if prefix t (c # cs) then Some 0 else map_option Suc (find_sub t cs))"

definition indexOf :: "string \<Rightarrow> string \<Rightarrow> nat \<Rightarrow> nat option" where
  \<comment> \<open>\<open>s.indexOf(t, from)\<close>; \<open>None\<close> is the result \<open>-1\<close>\<close>
  "indexOf s t from =
     (let k = min from (length s)
      in map_option (\<lambda>i. i + k) (find_sub t (drop k s)))"

definition is_boundary :: "char \<Rightarrow> bool" where
  \<comment> \<open>the look-ahead \<open>\s|[.,;:!?\)\]\}]\<close>\<close>
  "is_boundary c = (is_space c \<or> c \<in> set ''.,;:!?)]}'')"

fun content_match :: "string \<Rightarrow> string option" where
  \<comment> \<open>\<open>/^([^$\n]+?)(?=\s|$|[.,;:!?\)\]\}])/\<close>: the shortest non-empty prefix without
      dollar sign and line break that is followed by a boundary or by the end\<close>
  "content_match [] = None"
| "content_match (c # cs) =
     (if c = CHR ''$'' \<or> c = CHR 0x0A then None
      else if cs = [] \<or> is_boundary (hd cs) then Some [c]
      else map_option (Cons c) (content_match cs))"

lemma find_sub_bound: "find_sub t s = Some i \<Longrightarrow> i + length t \<le> length s"
proof (induction s arbitrary: i)
  case Nil
  then show ?case by (simp split: if_splits)
next
  case (Cons c cs)
  show ?case
  proof (cases "prefix t (c # cs)")
    case True
    with Cons.prems have "i = 0" by simp
    with prefix_length_le [OF True] show ?thesis by simp
  next
    case False
    with Cons.prems obtain j where "find_sub t cs = Some j" and "i = Suc j"
      by auto
    with Cons.IH [of j] show ?thesis by simp
  qed
qed

lemma indexOf_bounds:
  assumes "indexOf s t from = Some i" and "t \<noteq> []"
  shows "from \<le> i" and "i + length t \<le> length s"
proof -
  obtain j where j: "find_sub t (drop (min from (length s)) s) = Some j"
    and i: "i = j + min from (length s)"
    using assms(1) by (auto simp: indexOf_def Let_def)
  have b: "j + length t \<le> length s - min from (length s)"
    using find_sub_bound [OF j] by simp
  show "i + length t \<le> length s"
    using b i by simp
  have "from \<le> length s"
  proof (rule ccontr)
    assume "\<not> from \<le> length s"
    then have "length s - min from (length s) = 0" by simp
    with b assms(2) show False by simp
  qed
  then show "from \<le> i" using i by simp
qed

lemma content_match_length:
  "content_match s = Some c \<Longrightarrow> 0 < length c \<and> length c \<le> length s"
proof (induction s arbitrary: c)
  case Nil
  then show ?case by simp
next
  case (Cons a as)
  then show ?case
    by (auto split: if_splits)
qed

function fix_unclosed :: "string \<Rightarrow> nat \<Rightarrow> string" where
  \<comment> \<open>Step 2, pattern 3: the \<open>while (true)\<close> loop over the occurrences of \<open>$$\<close>, with the
      loop variables \<open>cleaned\<close> and \<open>searchFrom\<close>\<close>
  "fix_unclosed cleaned searchFrom =
     (case indexOf cleaned ''$$'' searchFrom of
        None \<Rightarrow> cleaned
      | Some dollarIndex \<Rightarrow>
          (let afterDollar = drop (dollarIndex + 2) cleaned
           in if prefix ''$$'' afterDollar
              then fix_unclosed cleaned (dollarIndex + 4)
              else
                (case indexOf afterDollar ''$'' 0 of
                   None \<Rightarrow>
                     (case content_match afterDollar of
                        Some content \<Rightarrow>
                          (let insertPos = dollarIndex + 2 + length content
                           in fix_unclosed
                                (take insertPos cleaned @ ''$$'' @ drop insertPos cleaned)
                                (insertPos + 2))
                      | None \<Rightarrow> cleaned @ ''$$'')
                 | Some nextDollar \<Rightarrow>
                     if nextDollar > 0 \<and> nextDollar + 1 < length afterDollar \<and>
                        afterDollar ! (nextDollar + 1) \<noteq> CHR ''$''
                     then fix_unclosed cleaned (dollarIndex + 2 + nextDollar + 1)
                     else if nextDollar + 1 < length afterDollar \<and>
                             afterDollar ! (nextDollar + 1) = CHR ''$''
                     then fix_unclosed cleaned (dollarIndex + 2 + nextDollar + 2)
                     else fix_unclosed cleaned (dollarIndex + 2))))"
  by pat_completeness auto
termination
proof (relation "measure (\<lambda>(cleaned, searchFrom). length cleaned - searchFrom)")
  show "wf (measure (\<lambda>(cleaned, searchFrom). length cleaned - searchFrom))"
    by simp
next
  fix cleaned :: string and searchFrom dollarIndex :: nat
  assume "indexOf cleaned ''$$'' searchFrom = Some dollarIndex"
  from indexOf_bounds [OF this] have "searchFrom \<le> dollarIndex" "dollarIndex + 2 \<le> length cleaned"
    by simp_all
  then show "((cleaned, dollarIndex + 4), cleaned, searchFrom)
      \<in> measure (\<lambda>(cleaned, searchFrom). length cleaned - searchFrom)"
    by simp
next
  fix cleaned :: string and searchFrom dollarIndex insertPos :: nat
    and afterDollar content :: string
  assume i: "indexOf cleaned ''$$'' searchFrom = Some dollarIndex"
    and a: "afterDollar = drop (dollarIndex + 2) cleaned"
    and c: "content_match afterDollar = Some content"
    and p: "insertPos = dollarIndex + 2 + length content"
  from indexOf_bounds [OF i] have b: "searchFrom \<le> dollarIndex" "dollarIndex + 2 \<le> length cleaned"
    by simp_all
  from content_match_length [OF c] a
  have "0 < length content" "length content \<le> length cleaned - (dollarIndex + 2)"
    by simp_all
  with b p show "((take insertPos cleaned @ ''$$'' @ drop insertPos cleaned, insertPos + 2),
        cleaned, searchFrom) \<in> measure (\<lambda>(cleaned, searchFrom). length cleaned - searchFrom)"
    by simp
next
  fix cleaned :: string and searchFrom dollarIndex nextDollar :: nat
  assume "indexOf cleaned ''$$'' searchFrom = Some dollarIndex"
  from indexOf_bounds [OF this] have "searchFrom \<le> dollarIndex" "dollarIndex + 2 \<le> length cleaned"
    by simp_all
  then show "((cleaned, dollarIndex + 2 + nextDollar + 1), cleaned, searchFrom)
      \<in> measure (\<lambda>(cleaned, searchFrom). length cleaned - searchFrom)"
    by simp
next
  fix cleaned :: string and searchFrom dollarIndex nextDollar :: nat
  assume "indexOf cleaned ''$$'' searchFrom = Some dollarIndex"
  from indexOf_bounds [OF this] have "searchFrom \<le> dollarIndex" "dollarIndex + 2 \<le> length cleaned"
    by simp_all
  then show "((cleaned, dollarIndex + 2 + nextDollar + 2), cleaned, searchFrom)
      \<in> measure (\<lambda>(cleaned, searchFrom). length cleaned - searchFrom)"
    by simp
next
  fix cleaned :: string and searchFrom dollarIndex :: nat
  assume "indexOf cleaned ''$$'' searchFrom = Some dollarIndex"
  from indexOf_bounds [OF this] have "searchFrom \<le> dollarIndex" "dollarIndex + 2 \<le> length cleaned"
    by simp_all
  then show "((cleaned, dollarIndex + 2), cleaned, searchFrom)
      \<in> measure (\<lambda>(cleaned, searchFrom). length cleaned - searchFrom)"
    by simp
qed

definition match_nested :: "string \<Rightarrow> (string \<times> nat) option" where
  \<comment> \<open>Step 3: \<open>/\$\$([^$]*)\$([^$]*)\$\$/g\<close>\<close>
  "match_nested s =
     (if prefix ''$$'' s
      then let part1 = takeWhile not_dollar (drop 2 s);
               rest1 = dropWhile not_dollar (drop 2 s)
           in if prefix ''$'' rest1
              then let part2 = takeWhile not_dollar (drop 1 rest1);
                       rest2 = dropWhile not_dollar (drop 1 rest1)
                   in if prefix ''$$'' rest2
                      then Some (''$$'' @ part1 @ part2 @ ''$$'',
                                 2 + length part1 + 1 + length part2 + 2)
                      else None
              else None
      else None)"

definition match_single_variable :: "string \<Rightarrow> (string \<times> nat) option" where
  \<comment> \<open>Step 4: \<open>/\$\$([a-z])\$\$/g\<close>\<close>
  "match_single_variable s =
     (case s of
        d1 # d2 # v # d3 # d4 # _ \<Rightarrow>
          if d1 = CHR ''$'' \<and> d2 = CHR ''$'' \<and> d3 = CHR ''$'' \<and> d4 = CHR ''$'' \<and>
             97 \<le> (of_char v :: nat) \<and> (of_char v :: nat) \<le> 122
          then Some ([CHR ''$'', v, CHR ''$''], 5)
          else None
      | _ \<Rightarrow> None)"

definition cleanLaTeX :: "string \<Rightarrow> string" where
  "cleanLaTeX content =
     (let cleaned = convert_delimiters content;
          cleaned = strip_role_start cleaned;
          cleaned = strip_role_lines cleaned;
          cleaned = replace_global match_display_single cleaned;
          cleaned = fix_inline_double cleaned;
          cleaned = fix_unclosed cleaned 0;
          cleaned = replace_global match_nested cleaned;
          cleaned = replace_global match_single_variable cleaned
      in trim cleaned)"

section \<open>Duplicate Detector\<close>

text \<open>
  The completion handler \<open>onDone\<close> of \<open>app/chat/[sessionId]/page.tsx\<close>, as a function
  of the content of the last message.  Both of its paths end with
  \<open>content = cleanLaTeX(content); updateLastMessage(content)\<close>; \<open>deduplicate\<close> is the value
  of \<open>content\<close> at that call and \<open>onDone_content\<close> the text that is stored.
\<close>

definition is_newline :: "char \<Rightarrow> bool" where
  "is_newline c = (c = CHR 0x0A)"

function split_blank_lines :: "string \<Rightarrow> string list" where
  \<comment> \<open>\<open>s.split(/\n{2,}/)\<close>: the separators are the maximal runs of two or more line
      breaks\<close>
  "split_blank_lines [] = [[]]"
| "split_blank_lines (c # cs) =
     (if is_newline c \<and> cs \<noteq> [] \<and> is_newline (hd cs)
      then [] # split_blank_lines (dropWhile is_newline cs)
      else (case split_blank_lines cs of
              [] \<Rightarrow> [[c]]
            | l # ls \<Rightarrow> (c # l) # ls))"
  by pat_completeness auto
termination
  by (relation "measure length") (auto simp: le_imp_less_Suc length_dropWhile_le)

fun join :: "string \<Rightarrow> string list \<Rightarrow> string" where
  \<comment> \<open>\<open>xs.join(sep)\<close>\<close>
  "join sep [] = []"
| "join sep [x] = x"
| "join sep (x # y # ys) = x @ sep @ join sep (y # ys)"

definition section_signature :: "string \<Rightarrow> string" where
  \<comment> \<open>\<open>section.trim().toLowerCase().substring(0, 150).replace(/\s+/g, ' ')\<close>\<close>
  "section_signature section =
     replace_spaces (substring (toLowerCase (trim section)) 0 150)"

definition visit_section ::
    "(string \<rightharpoonup> nat) \<times> string list \<Rightarrow> string \<Rightarrow> (string \<rightharpoonup> nat) \<times> string list" where
  \<comment> \<open>the body of \<open>sections.forEach\<close>, on the pair of \<open>seen\<close> and \<open>uniqueSections\<close>\<close>
  "visit_section st section =
     (let seen = fst st; uniqueSections = snd st;
          normalized = section_signature section;
          count = (case seen normalized of Some n \<Rightarrow> n | None \<Rightarrow> 0)
      in if count = 0
         then (seen(normalized \<mapsto> 1), uniqueSections @ [section])
         else (seen(normalized \<mapsto> count + 1), uniqueSections))"

definition unique_sections :: "string list \<Rightarrow> string list" where
  "unique_sections sections = snd (foldl visit_section (Map.empty, []) sections)"

definition dedupe_paragraphs :: "string \<Rightarrow> string" where
  "dedupe_paragraphs content =
     (let sections = filter (\<lambda>s. trim s \<noteq> []) (split_blank_lines content)
      in if length sections > 1
         then let uniqueSections = unique_sections sections
              in if length uniqueSections < length sections
                 then join ''\<newline>\<newline>'' uniqueSections
                 else content
         else content)"

definition deduplicate :: "string \<Rightarrow> string" where
  "deduplicate lastContent =
     (let content = trim lastContent;
          midPoint = length content div 2;
          firstHalf = trim (substring content 0 midPoint);
          secondHalf = trim (drop midPoint content)
      in if length firstHalf > 100 \<and> length secondHalf > 100 \<and>
            calculateSimilarity firstHalf secondHalf > 8 / 10
         then firstHalf
         else dedupe_paragraphs content)"

definition onDone_content :: "string \<Rightarrow> string" where
  \<comment> \<open>a message without content is left alone: \<open>if (lastMessage && lastMessage.content)\<close>\<close>
  "onDone_content lastContent =
     (if lastContent = [] then lastContent else cleanLaTeX (deduplicate lastContent))"

text \<open>
  The signature as the specification words it (lowercase, collapse white space, then the
  first 150 characters), for comparison with \<open>section_signature\<close>.
\<close>

definition spec_signature :: "string \<Rightarrow> string" where
  "spec_signature section = take 150 (replace_spaces (toLowerCase section))"

section \<open>JSON values and the platform's parser\<close>

text \<open>
  \<open>JSON.parse\<close> belongs to the platform, not to the repository.  It is modelled by a
  recursive-descent parser for the JSON grammar over the alphabet of this development.
  A number keeps its literal: nothing in the pipeline computes with a number or prints
  one.  An object is an association list with one entry per key (a repeated key keeps its
  last value, as in JavaScript); the order of the keys plays no role in the pipeline.
  An escape \<open>\uXXXX\<close> beyond the alphabet is outside the model and rejected.
  The parser counts down a fuel argument at every recursive call; \<open>JSON_parse\<close> starts
  it with twice the length of the text plus two, and any two nested calls are separated
  by at least one consumed character.
\<close>

datatype json =
    JNull
  | JBool bool
  | JNumber string
  | JString string
  | JArray "json list"
  | JObject "(string \<times> json) list"

definition is_json_space :: "char \<Rightarrow> bool" where
  "is_json_space c = (of_char c \<in> {9, 10, 13, 32 :: nat})"

definition skip_space :: "string \<Rightarrow> string" where
  "skip_space s = dropWhile is_json_space s"

definition is_digit :: "char \<Rightarrow> bool" where
  "is_digit c = (48 \<le> (of_char c :: nat) \<and> (of_char c :: nat) \<le> 57)"

definition hex_value :: "char \<Rightarrow> nat option" where
  "hex_value c =
     (let n = (of_char c :: nat)
      in if 48 \<le> n \<and> n \<le> 57 then Some (n - 48)
         else if 65 \<le> n \<and> n \<le> 70 then Some (n - 55)
         else if 97 \<le> n \<and> n \<le> 102 then Some (n - 87)
         else None)"

definition parse_hex4 :: "string \<Rightarrow> nat option" where
  "parse_hex4 s =
     (case map hex_value (take 4 s) of
        [Some a, Some b, Some c, Some d] \<Rightarrow> Some (((a * 16 + b) * 16 + c) * 16 + d)
      | _ \<Rightarrow> None)"

definition escape_char :: "char \<Rightarrow> char option" where
  "escape_char e =
     (if e = CHR 0x22 then Some (CHR 0x22)
      else if e = CHR 0x5C then Some (CHR 0x5C)
      else if e = CHR ''/'' then Some (CHR ''/'')
      else if e = CHR ''b'' then Some (CHR 0x08)
      else if e = CHR ''f'' then Some (CHR 0x0C)
      else if e = CHR ''n'' then Some (CHR 0x0A)
      else if e = CHR ''r'' then Some (CHR 0x0D)
      else if e = CHR ''t'' then Some (CHR 0x09)
      else None)"

fun parse_chars :: "string \<Rightarrow> (string \<times> string) option" where
  \<comment> \<open>the characters of a string literal behind its opening quote, up to and including
      the closing quote\<close>
  "parse_chars [] = None"
| "parse_chars (c # cs) =
     (if c = CHR 0x22 then Some ([], cs)
      else if c = CHR 0x5C then
        (case cs of
           [] \<Rightarrow> None
         | e # es \<Rightarrow>
             if e = CHR ''u'' then
               (case parse_hex4 es of
                  None \<Rightarrow> None
                | Some n \<Rightarrow>
                    if n < 256
                    then map_option (\<lambda>(r, rest). (char_of n # r, rest)) (parse_chars (drop 4 es))
                    else None)
             else
               (case escape_char e of
                  None \<Rightarrow> None
                | Some d \<Rightarrow> map_option (\<lambda>(r, rest). (d # r, rest)) (parse_chars es)))
      else if (of_char c :: nat) < 32 then None
      else map_option (\<lambda>(r, rest). (c # r, rest)) (parse_chars cs))"

definition parse_digits :: "string \<Rightarrow> (string \<times> string) option" where
  \<comment> \<open>one or more digits\<close>
  "parse_digits s =
     (if takeWhile is_digit s = [] then None
      else Some (takeWhile is_digit s, dropWhile is_digit s))"

definition parse_int_part :: "string \<Rightarrow> (string \<times> string) option" where
  \<comment> \<open>\<open>0\<close>, or a digit from 1 to 9 followed by digits\<close>
  "parse_int_part s =
     (case s of
        [] \<Rightarrow> None
      | c # cs \<Rightarrow>
          if c = CHR ''0'' then Some ([c], cs)
          else if is_digit c then Some (c # takeWhile is_digit cs, dropWhile is_digit cs)
          else None)"

definition parse_fraction :: "string \<Rightarrow> (string \<times> string) option" where
  "parse_fraction s =
     (case s of
        c # cs \<Rightarrow>
          if c = CHR ''.''
          then map_option (\<lambda>(ds, rest). (c # ds, rest)) (parse_digits cs)
          else Some ([], s)
      | [] \<Rightarrow> Some ([], s))"

definition parse_exponent :: "string \<Rightarrow> (string \<times> string) option" where
  "parse_exponent s =
     (case s of
        c # cs \<Rightarrow>
          if c = CHR ''e'' \<or> c = CHR ''E''
          then (case cs of
                  d # ds \<Rightarrow>
                    if d = CHR ''+'' \<or> d = CHR ''-''
                    then map_option (\<lambda>(xs, rest). (c # d # xs, rest)) (parse_digits ds)
                    else map_option (\<lambda>(xs, rest). (c # xs, rest)) (parse_digits cs)
                | [] \<Rightarrow> None)
          else Some ([], s)
      | [] \<Rightarrow> Some ([], s))"

definition parse_number :: "string \<Rightarrow> (string \<times> string) option" where
  "parse_number s =
     (let sign = (if prefix ''-'' s then ''-'' else []);
          s1 = drop (length sign) s
      in case parse_int_part s1 of
           None \<Rightarrow> None
         | Some (i, s2) \<Rightarrow>
             (case parse_fraction s2 of
                None \<Rightarrow> None
              | Some (f, s3) \<Rightarrow>
                  (case parse_exponent s3 of
                     None \<Rightarrow> None
                   | Some (e, s4) \<Rightarrow> Some (sign @ i @ f @ e, s4))))"

definition object_of_members :: "(string \<times> json) list \<Rightarrow> (string \<times> json) list" where
  "object_of_members ms = foldl (\<lambda>obj (k, v). AList.update k v obj) [] ms"

fun parse_value :: "nat \<Rightarrow> string \<Rightarrow> (json \<times> string) option"
  and parse_elements :: "nat \<Rightarrow> string \<Rightarrow> (json list \<times> string) option"
  and parse_members :: "nat \<Rightarrow> string \<Rightarrow> ((string \<times> json) list \<times> string) option"
where
  "parse_value 0 s = None"
| "parse_value (Suc n) s =
     (case skip_space s of
        [] \<Rightarrow> None
      | c # cs \<Rightarrow>
          if c = CHR ''{'' then
            (if prefix ''}'' (skip_space cs)
             then Some (JObject [], drop 1 (skip_space cs))
             else map_option (\<lambda>(ms, rest). (JObject (object_of_members ms), rest))
                    (parse_members n cs))
          else if c = CHR ''['' then
            (if prefix '']'' (skip_space cs)
             then Some (JArray [], drop 1 (skip_space cs))
             else map_option (\<lambda>(vs, rest). (JArray vs, rest)) (parse_elements n cs))
          else if c = CHR 0x22 then
            map_option (\<lambda>(str, rest). (JString str, rest)) (parse_chars cs)
          else if prefix ''true'' (c # cs) then Some (JBool True, drop 4 (c # cs))
          else if prefix ''false'' (c # cs) then Some (JBool False, drop 5 (c # cs))
          else if prefix ''null'' (c # cs) then Some (JNull, drop 4 (c # cs))
          else map_option (\<lambda>(lit, rest). (JNumber lit, rest)) (parse_number (c # cs)))"
| "parse_elements 0 s = None"
| "parse_elements (Suc n) s =
     (case parse_value n s of
        None \<Rightarrow> None
      | Some (v, rest) \<Rightarrow>
          (case skip_space rest of
             [] \<Rightarrow> None
           | c # cs \<Rightarrow>
               if c = CHR '','' then
                 map_option (\<lambda>(vs, rest'). (v # vs, rest')) (parse_elements n cs)
               else if c = CHR '']'' then Some ([v], cs)
               else None))"
| "parse_members 0 s = None"
| "parse_members (Suc n) s =
     (case skip_space s of
        [] \<Rightarrow> None
      | q # cs \<Rightarrow>
          if q = CHR 0x22 then
            (case parse_chars cs of
               None \<Rightarrow> None
             | Some (key, rest) \<Rightarrow>
                 (case skip_space rest of
                    [] \<Rightarrow> None
                  | d # ds \<Rightarrow>
                      if d = CHR '':'' then
                        (case parse_value n ds of
                           None \<Rightarrow> None
                         | Some (v, rest') \<Rightarrow>
                             (case skip_space rest' of
                                [] \<Rightarrow> None
                              | e # es \<Rightarrow>
                                  if e = CHR '','' then
                                    map_option (\<lambda>(ms, r). ((key, v) # ms, r))
                                      (parse_members n es)
                                  else if e = CHR ''}'' then Some ([(key, v)], es)
                                  else None))
                      else None))
          else None)"

definition JSON_parse :: "string \<Rightarrow> json option" where
  \<comment> \<open>\<open>None\<close> is the \<open>SyntaxError\<close>\<close>
  "JSON_parse s =
     (case parse_value (2 * length s + 2) s of
        None \<Rightarrow> None
      | Some (v, rest) \<Rightarrow> if skip_space rest = [] then Some v else None)"

section \<open>The wire schema\<close>

text \<open>
  The stream-event schemas of \<open>lib/api-schemas\<close>.  Each is a strict object schema: the
  value must be an object, every field must pass its check, and a key outside the shape
  is an error.  The validated data carries the fields of the shape, in the order of the
  shape; an optional field that is absent stays absent.  \<open>safeParse\<close> yields \<open>None\<close>
  where validation fails.
\<close>

datatype ChatStreamEvent =
    Delta string
  | Error string "string option"
  | Done

definition strict_keys :: "string list \<Rightarrow> (string \<times> json) list \<Rightarrow> bool" where
  \<comment> \<open>\<open>.strict()\<close>: no key outside the shape\<close>
  "strict_keys shape obj = (\<forall>k \<in> set (map fst obj). k \<in> set shape)"

definition ChatStreamDeltaSchema :: "json \<Rightarrow> ChatStreamEvent option" where
  "ChatStreamDeltaSchema v =
     (case v of
        JObject obj \<Rightarrow>
          (case (map_of obj ''type'', map_of obj ''token'') of
             (Some (JString ty), Some (JString token)) \<Rightarrow>
               if ty = ''delta'' \<and> length token \<ge> 1 \<and> strict_keys [''type'', ''token''] obj
               then Some (Delta token) else None
           | _ \<Rightarrow> None)
      | _ \<Rightarrow> None)"

definition ChatStreamErrorSchema :: "json \<Rightarrow> ChatStreamEvent option" where
  "ChatStreamErrorSchema v =
     (case v of
        JObject obj \<Rightarrow>
          (case (map_of obj ''type'', map_of obj ''message'') of
             (Some (JString ty), Some (JString message)) \<Rightarrow>
               if ty = ''error'' \<and> length message \<ge> 1 \<and>
                  strict_keys [''type'', ''message'', ''code''] obj
               then (case map_of obj ''code'' of
                       None \<Rightarrow> Some (Error message None)
                     | Some (JString code) \<Rightarrow>
                         if length code \<le> 100 then Some (Error message (Some code)) else None
                     | Some _ \<Rightarrow> None)
               else None
           | _ \<Rightarrow> None)
      | _ \<Rightarrow> None)"

definition ChatStreamDoneSchema :: "json \<Rightarrow> ChatStreamEvent option" where
  "ChatStreamDoneSchema v =
     (case v of
        JObject obj \<Rightarrow>
          (case map_of obj ''type'' of
             Some (JString ty) \<Rightarrow>
               if ty = ''done'' \<and> strict_keys [''type''] obj then Some Done else None
           | _ \<Rightarrow> None)
      | _ \<Rightarrow> None)"

definition ChatStreamEventSchema :: "json \<Rightarrow> ChatStreamEvent option" where
  \<comment> \<open>\<open>z.discriminatedUnion('type', [Delta, Error, Done])\<close>: the value of the key
      \<open>type\<close> selects the schema; a value that selects none is invalid\<close>
  "ChatStreamEventSchema v =
     (case v of
        JObject obj \<Rightarrow>
          (case map_of obj ''type'' of
             Some (JString ty) \<Rightarrow>
               if ty = ''delta'' then ChatStreamDeltaSchema v
               else if ty = ''error'' then ChatStreamErrorSchema v
               else if ty = ''done'' then ChatStreamDoneSchema v
               else None
           | _ \<Rightarrow> None)
      | _ \<Rightarrow> None)"

definition hex_digit :: "nat \<Rightarrow> char" where
  "hex_digit n = (if n < 10 then char_of (48 + n) else char_of (87 + n))"

definition quote_char :: "char \<Rightarrow> string" where
  \<comment> \<open>one character of a string under \<open>JSON.stringify\<close>\<close>
  "quote_char c =
     (let n = (of_char c :: nat)
      in if c = CHR 0x22 then BS @ [CHR 0x22]
         else if c = CHR 0x5C then BS @ BS
         else if n = 8 then BS @ ''b''
         else if n = 12 then BS @ ''f''
         else if n = 10 then BS @ ''n''
         else if n = 13 then BS @ ''r''
         else if n = 9 then BS @ ''t''
         else if n < 32 then BS @ ''u00'' @ [hex_digit (n div 16), hex_digit (n mod 16)]
         else [c])"

definition quote :: "string \<Rightarrow> string" where
  "quote s = [CHR 0x22] @ concat (map quote_char s) @ [CHR 0x22]"

definition stringify :: "ChatStreamEvent \<Rightarrow> string" where
  \<comment> \<open>\<open>JSON.stringify\<close> of validated data\<close>
  "stringify ev =
     (case ev of
        Delta token \<Rightarrow> ''{'' @ quote ''type'' @ '':'' @ quote ''delta'' @ '','' @
                        quote ''token'' @ '':'' @ quote token @ ''}''
      | Error message code \<Rightarrow>
          ''{'' @ quote ''type'' @ '':'' @ quote ''error'' @ '','' @
          quote ''message'' @ '':'' @ quote message @
          (case code of None \<Rightarrow> [] | Some c \<Rightarrow> '','' @ quote ''code'' @ '':'' @ quote c) @
          ''}''
      | Done \<Rightarrow> ''{'' @ quote ''type'' @ '':'' @ quote ''done'' @ ''}'')"

section \<open>Stream Relay\<close>

text \<open>
  The body of the \<open>ReadableStream\<close> of \<open>app/api/chat/route.ts\<close>.  The upstream body is a
  sequence of byte chunks.  \<open>decoder.decode(value, {stream: true})\<close> belongs to the
  platform: a streaming decoder consumes its input byte by byte, keeps the bytes of an
  incomplete character in its state and emits the text that is complete.  It is a
  parameter of the model, given by its step function on one byte.  The output is the
  list of the texts passed to \<open>controller.enqueue\<close>, in order.
\<close>

type_synonym byte = char

type_synonym 'd decoder = "'d \<Rightarrow> byte \<Rightarrow> 'd \<times> string"

definition decode :: "'d decoder \<Rightarrow> 'd \<Rightarrow> byte list \<Rightarrow> 'd \<times> string" where
  "decode dec d bytes =
     foldl (\<lambda>(d, text) b. case dec d b of (d', t) \<Rightarrow> (d', text @ t)) (d, []) bytes"

definition ascii_decoder :: "unit decoder" where
  \<comment> \<open>the decoder on input that is ASCII: every byte is one character\<close>
  "ascii_decoder d b = (d, [b])"

fun split_lines :: "string \<Rightarrow> string list" where
  \<comment> \<open>\<open>s.split('\n')\<close>\<close>
  "split_lines [] = [[]]"
| "split_lines (c # cs) =
     (if c = CHR 0x0A then [] # split_lines cs
      else (case split_lines cs of
              [] \<Rightarrow> [[c]]
            | l # ls \<Rightarrow> (c # l) # ls))"

definition validation_error :: json where
  "validation_error =
     JObject [(''type'', JString ''error''),
              (''message'', JString ''Invalid event format from backend''),
              (''code'', JString ''validation_error'')]"

definition process_line :: "string \<Rightarrow> string list" where
  \<comment> \<open>the body of \<open>for (const line of lines)\<close>: what it enqueues.  A \<open>SyntaxError\<close>
      of \<open>JSON.parse\<close> and an error thrown by \<open>ChatStreamErrorSchema.parse\<close> are both
      caught by the \<open>catch\<close>, which goes on with the next line\<close>
  "process_line line =
     (if trim line = [] then []
      else case JSON_parse line of
             None \<Rightarrow> []
           | Some parsed \<Rightarrow>
               (case ChatStreamEventSchema parsed of
                  Some data \<Rightarrow> [stringify data @ ''\<newline>'']
                | None \<Rightarrow>
                    (case ChatStreamErrorSchema validation_error of
                       Some errorEvent \<Rightarrow> [stringify errorEvent @ ''\<newline>'']
                     | None \<Rightarrow> [])))"

definition process_remaining :: "string \<Rightarrow> string list" where
  \<comment> \<open>"Process remaining buffer", behind the loop\<close>
  "process_remaining buffer =
     (if trim buffer = [] then []
      else case JSON_parse buffer of
             None \<Rightarrow> []
           | Some parsed \<Rightarrow>
               (case ChatStreamEventSchema parsed of
                  Some data \<Rightarrow> [stringify data @ ''\<newline>'']
                | None \<Rightarrow> []))"

record 'd relay_state =
  decoder_state :: 'd
  buffer :: string
  enqueued :: "string list"

definition relay_read :: "'d decoder \<Rightarrow> 'd relay_state \<Rightarrow> byte list \<Rightarrow> 'd relay_state" where
  \<comment> \<open>one round of the \<open>while (true)\<close> loop, for a chunk \<open>value\<close> that was read\<close>
  "relay_read dec st value =
     (case decode dec (decoder_state st) value of
        (d', text) \<Rightarrow>
          let lines = split_lines (buffer st @ text)
          in \<lparr> decoder_state = d',
               buffer = (if lines = [] then [] else last lines),
               enqueued = enqueued st @ concat (map process_line (butlast lines)) \<rparr>)"

definition relay :: "'d decoder \<Rightarrow> 'd \<Rightarrow> byte list list \<Rightarrow> string list" where
  \<comment> \<open>the whole stream: the chunks in order, the end of the stream, the remaining
      buffer\<close>
  "relay dec d0 chunks =
     (let st = foldl (relay_read dec)
                 \<lparr> decoder_state = d0, buffer = [], enqueued = [] \<rparr> chunks
      in enqueued st @ process_remaining (buffer st))"

section \<open>Stream Consumer\<close>

text \<open>
  \<open>streamChat\<close> of \<open>lib/streamChat.ts\<close>.  The three handlers belong to the caller; the
  model records the calls in order.  Reading a property of \<open>null\<close> throws a
  \<open>TypeError\<close>, which ends \<open>streamChat\<close>; a property that a value does not have is
  \<open>undefined\<close>, here \<open>None\<close>.
\<close>

datatype handler_call =
    OnToken "json option"
  | OnTool "json option" "json option"
  | OnDone json

datatype js_error = TypeError

definition property :: "json \<Rightarrow> string \<Rightarrow> json option" where
  \<comment> \<open>\<open>parsed.key\<close> for a value other than \<open>null\<close> and the keys \<open>type\<close>, \<open>token\<close>,
      \<open>name\<close> and \<open>args\<close>\<close>
  "property v key = (case v of JObject obj \<Rightarrow> map_of obj key | _ \<Rightarrow> None)"

definition dispatch :: "json \<Rightarrow> js_error + handler_call list" where
  "dispatch parsed =
     (if parsed = JNull then Inl TypeError
      else if property parsed ''type'' = Some (JString ''delta'')
        then Inr [OnToken (property parsed ''token'')]
      else if property parsed ''type'' = Some (JString ''tool'')
        then Inr [OnTool (property parsed ''name'') (property parsed ''args'')]
      else if property parsed ''type'' = Some (JString ''done'')
        then Inr [OnDone parsed]
      else Inr [])"

definition consume_part :: "string \<Rightarrow> js_error + handler_call list" where
  \<comment> \<open>the body of \<open>for (const part of parts)\<close>\<close>
  "consume_part part =
     (if trim part = [] then Inr []
      else case JSON_parse part of
             None \<Rightarrow> Inr []
           | Some parsed \<Rightarrow> dispatch parsed)"

fun consume_parts :: "string list \<Rightarrow> handler_call list \<times> js_error option" where
  \<comment> \<open>the \<open>for\<close> loop: the calls made, and the error if one was thrown\<close>
  "consume_parts [] = ([], None)"
| "consume_parts (part # parts) =
     (case consume_part part of
        Inl e \<Rightarrow> ([], Some e)
      | Inr calls \<Rightarrow>
          (case consume_parts parts of (calls', r) \<Rightarrow> (calls @ calls', r)))"

record 'd consumer_state =
  reader_state :: 'd
  pending :: string
  calls :: "handler_call list"
  thrown :: "js_error option"

definition consumer_read ::
    "'d decoder \<Rightarrow> 'd consumer_state \<Rightarrow> byte list \<Rightarrow> 'd consumer_state" where
  \<comment> \<open>one round of the \<open>while (true)\<close> loop; nothing runs once an error was thrown\<close>
  "consumer_read dec st value =
     (if thrown st \<noteq> None then st
      else case decode dec (reader_state st) value of
        (d', text) \<Rightarrow>
          let parts = split_lines (pending st @ text)
          in case consume_parts (butlast parts) of
               (cs, r) \<Rightarrow>
                 \<lparr> reader_state = d',
                   pending = (if parts = [] then [] else last parts),
                   calls = calls st @ cs,
                   thrown = r \<rparr>)"

definition streamChat :: "'d decoder \<Rightarrow> 'd \<Rightarrow> byte list list \<Rightarrow> handler_call list \<times> js_error option" where
  \<comment> \<open>the response body as a sequence of chunks; the text behind the last line break
      is not looked at when the stream ends\<close>
  "streamChat dec d0 chunks =
     (let st = foldl (consumer_read dec)
                 \<lparr> reader_state = d0, pending = [], calls = [], thrown = None \<rparr> chunks
      in (calls st, thrown st))"

section \<open>The token handler of the chat page\<close>

text \<open>
  \<open>onToken\<close> of \<open>handleSendMessage\<close> in \<open>app/chat/[sessionId]/page.tsx\<close>.  Its state is
  the variable \<open>firstToken\<close> and the content of the last message of the current session,
  which \<open>updateLastMessage\<close> replaces and \<open>updateMessageChunk\<close> extends
  (\<open>lib/store.ts\<close>).  The session exists and holds the waiting message when the stream
  starts.
\<close>

record page_state =
  firstToken :: bool
  lastMessage :: string

definition onToken :: "page_state \<Rightarrow> string \<Rightarrow> page_state" where
  "onToken st token =
     (let cleanedToken = strip_role_start token
      in if firstToken st
         then \<lparr> firstToken = False, lastMessage = cleanedToken \<rparr>
         else \<lparr> firstToken = False, lastMessage = lastMessage st @ cleanedToken \<rparr>)"

definition waiting :: page_state where
  "waiting = \<lparr> firstToken = True, lastMessage = ''Please wait, I am cooking...'' \<rparr>"

section \<open>The message bubble\<close>

text \<open>
  The component \<open>MessageBubble\<close> (\<open>message-bubble\<close>) renders the stored content of a
  message.  The text it hands to the renderer is the constant \<open>cleanedContent\<close>: for a
  message of the assistant the normalizer is applied to the stored content again.  The
  comment of the source says that the content is already cleaned in the \<open>onDone\<close>
  callback and that this second application is kept as a fallback safety net.
\<close>

definition cleanedContent :: "bool \<Rightarrow> string \<Rightarrow> string" where
  \<comment> \<open>\<open>isAssistant ? cleanLaTeX(message.content) : message.content\<close>\<close>
  "cleanedContent isAssistant content = (if isAssistant then cleanLaTeX content else content)"

section \<open>Notions used in the proofs\<close>

text \<open>
  The walk over the sections as a recursion over the set of signatures seen so far; a
  text without leading and trailing white space, which is what \<open>trim\<close> yields; a section
  as the split on blank lines produces it: not blank, without two line breaks in a row,
  and without a line break at its start or its end.
\<close>

fun keep_first :: "string set \<Rightarrow> string list \<Rightarrow> string list" where
  "keep_first S [] = []"
| "keep_first S (x # xs) =
     (if section_signature x \<in> S then keep_first S xs
      else x # keep_first (insert (section_signature x) S) xs)"

definition trimmed :: "string \<Rightarrow> bool" where
  "trimmed x = (x = [] \<or> (\<not> is_space (hd x) \<and> \<not> is_space (last x)))"

definition plain_section :: "string \<Rightarrow> bool" where
  "plain_section a =
     (trim a \<noteq> [] \<and> \<not> str_includes a ''\<newline>\<newline>'' \<and>
      hd a \<noteq> CHR 0x0A \<and> last a \<noteq> CHR 0x0A)"


text \<open>
  A text without dollar sign; a piece of such text that is not empty and not a single
  lowercase letter; and a text whose dollar signs are exactly the delimiters of block
  formulas: \<open>block_text t [(f\<^sub>1, u\<^sub>1), \<dots>, (f\<^sub>n, u\<^sub>n)]\<close> is the text \<open>t\<close>, then the formula
  \<open>f\<^sub>1\<close> in block delimiters, the text \<open>u\<^sub>1\<close>, and so on up to the text \<open>u\<^sub>n\<close>.  It is well
  formed when no piece contains a dollar sign and every formula and every text between
  two formulas is a proper piece.
\<close>

definition dollar_free :: "string \<Rightarrow> bool" where
  "dollar_free s = (CHR ''$'' \<notin> set s)"




section \<open>Properties of the similarity function\<close>

lemma common_words_le:
  "length (filter (\<lambda>w. w \<in> set ws2) ws1) \<le> length ws1"
  by simp

lemma common_words_distinct_le:
  assumes "distinct ws1"
  shows "length (filter (\<lambda>w. w \<in> set ws2) ws1) \<le> length ws2"
proof -
  have d: "distinct (filter (\<lambda>w. w \<in> set ws2) ws1)"
    using assms by simp
  have "length (filter (\<lambda>w. w \<in> set ws2) ws1) = card (set (filter (\<lambda>w. w \<in> set ws2) ws1))"
    by (rule distinct_card [OF d, symmetric])
  also have "\<dots> \<le> card (set ws2)"
    by (rule card_mono) auto
  also have "\<dots> \<le> length ws2"
    by (rule card_length)
  finally show ?thesis .
qed

lemma similarity_cases:
  "calculateSimilarity str1 str2 = 1 \<or> calculateSimilarity str1 str2 = 9 / 10 \<or>
   calculateSimilarity str1 str2 = 0 \<or>
   (\<exists>ws1 ws2. ws1 \<noteq> [] \<and> ws2 \<noteq> [] \<and>
      ws1 = long_words (replace_spaces (toLowerCase
              (if length str1 > length str2 then str1 else str2))) \<and>
      calculateSimilarity str1 str2 =
        of_nat (length (filter (\<lambda>w. w \<in> set ws2) ws1) * 2) /
        of_nat (length ws1 + length ws2))"
  unfolding calculateSimilarity_def Let_def by auto

lemma overlap_quotient_bounds:
  fixes ws1 ws2 :: "string list"
  assumes "ws1 \<noteq> []" and "ws2 \<noteq> []"
  defines "q \<equiv> (of_nat (length (filter (\<lambda>w. w \<in> set ws2) ws1) * 2) /
                   of_nat (length ws1 + length ws2) :: rat)"
  shows "0 \<le> q" and "q < 2" and "distinct ws1 \<Longrightarrow> q \<le> 1"
proof -
  define c where "c = length (filter (\<lambda>w. w \<in> set ws2) ws1)"
  define n where "n = length ws1 + length ws2"
  have q: "q = of_nat (c * 2) / of_nat n"
    by (simp add: q_def c_def n_def)
  have c1: "c \<le> length ws1"
    unfolding c_def by (rule common_words_le)
  have l2: "0 < length ws2" and l1: "0 < length ws1"
    using assms(1,2) by simp_all
  have "0 < n"
    using l1 by (simp add: n_def)
  then have pos: "(0::rat) < of_nat n"
    by (simp only: of_nat_0_less_iff)
  show "0 \<le> q"
    unfolding q by (rule divide_nonneg_pos [OF _ pos]) simp
  have "c * 2 < 2 * n"
    unfolding n_def using c1 l2 by arith
  then have "(of_nat (c * 2) :: rat) < of_nat (2 * n)"
    by (simp only: of_nat_less_iff)
  then show "q < 2"
    unfolding q using pos by (simp add: pos_divide_less_eq)
  assume "distinct ws1"
  then have "c \<le> length ws2"
    unfolding c_def by (rule common_words_distinct_le)
  then have "c * 2 \<le> n"
    unfolding n_def using c1 by arith
  then have "(of_nat (c * 2) :: rat) \<le> of_nat n"
    by (simp only: of_nat_le_iff)
  then show "q \<le> 1"
    unfolding q using pos by (simp add: pos_divide_le_eq)
qed

text \<open>
  Claim C3 says that the similarity function returns a value in the closed interval
  from 0 to 1 for every pair of strings, also when the word lists contain repeated
  words.  \<open>commonWords\<close> counts every occurrence of a word of the longer text that the
  shorter text contains, so a repeated word is counted once per occurrence and the
  quotient exceeds 1: for the two texts below it is \<open>2 * 4 / (5 + 2)\<close>.
\<close>

theorem similarity_above_one:
  "calculateSimilarity ''abcd abcd abcd abcd xxxx'' ''abcd yyyy'' = 8 / 7 \<and>
   \<not> calculateSimilarity ''abcd abcd abcd abcd xxxx'' ''abcd yyyy'' \<le> 1"
  by code_simp

text \<open>
  Claim C3, amended: for every pair of strings the similarity is at least 0 and less
  than 2, and it is at most 1 whenever the qualifying words of the longer string (the
  second string when the lengths are equal) are pairwise different.
\<close>

theorem similarity_range:
  "0 \<le> calculateSimilarity str1 str2 \<and> calculateSimilarity str1 str2 < 2 \<and>
   (distinct (long_words (replace_spaces (toLowerCase
        (if length str1 > length str2 then str1 else str2)))) \<longrightarrow>
    calculateSimilarity str1 str2 \<le> 1)"
proof -
  let ?s = "calculateSimilarity str1 str2"
  let ?w = "long_words (replace_spaces (toLowerCase
              (if length str1 > length str2 then str1 else str2)))"
  consider "?s = 1" | "?s = 9 / 10" | "?s = 0"
    | ws2 where "?w \<noteq> []" "ws2 \<noteq> []"
        "?s = of_nat (length (filter (\<lambda>w. w \<in> set ws2) ?w) * 2) /
              of_nat (length ?w + length ws2)"
    using similarity_cases [of str1 str2] by blast
  then show ?thesis
  proof cases
    case 4
    from overlap_quotient_bounds [OF 4(1,2)] 4(3) show ?thesis by simp
  qed simp_all
qed

theorem similarity_range_witness:
  "distinct (long_words (replace_spaces (toLowerCase
      (if length ''abcd efgh ijkl'' > length ''abcd xxxx''
       then ''abcd efgh ijkl'' else ''abcd xxxx'')))) \<and>
   calculateSimilarity ''abcd efgh ijkl'' ''abcd xxxx'' = 2 / 5 \<and>
   calculateSimilarity ''abcd efgh ijkl'' ''abcd xxxx'' \<le> 1"
proof -
  have d: "distinct (long_words (replace_spaces (toLowerCase
      (if length ''abcd efgh ijkl'' > length ''abcd xxxx''
       then ''abcd efgh ijkl'' else ''abcd xxxx''))))"
    by code_simp
  have v: "calculateSimilarity ''abcd efgh ijkl'' ''abcd xxxx'' = 2 / 5"
    by code_simp
  from similarity_range [of "''abcd efgh ijkl''" "''abcd xxxx''"] d v
  show ?thesis by blast
qed

section \<open>Properties of the Stream Relay\<close>

lemma split_lines_not_Nil: "split_lines s \<noteq> []"
  by (induction s) (auto split: list.splits)

lemma split_lines_append:
  "split_lines (a @ b) =
     butlast (split_lines a) @ split_lines (last (split_lines a) @ b)"
proof (induction a)
  case Nil
  show ?case by simp
next
  case (Cons c cs)
  show ?case
  proof (cases "c = CHR 0x0A")
    case True
    then show ?thesis
      using Cons.IH split_lines_not_Nil [of cs] by simp
  next
    case False
    obtain l ls where s: "split_lines cs = l # ls"
      using split_lines_not_Nil [of cs] by (cases "split_lines cs") auto
    show ?thesis
    proof (cases ls)
      case Nil
      with s False Cons.IH show ?thesis by simp
    next
      case (Cons y ys)
      with s False Cons.IH show ?thesis by simp
    qed
  qed
qed

lemma last_split_lines_no_newline: "CHR 0x0A \<notin> set (last (split_lines s))"
proof (induction s)
  case Nil
  show ?case by simp
next
  case (Cons c cs)
  obtain l ls where s: "split_lines cs = l # ls"
    using split_lines_not_Nil [of cs] by (cases "split_lines cs") auto
  with Cons show ?case by (cases ls) auto
qed

lemma split_lines_no_newline: "CHR 0x0A \<notin> set s \<Longrightarrow> split_lines s = [s]"
  by (induction s) auto

lemma decode_acc:
  "foldl (\<lambda>(d, text) b. case dec d b of (d', t) \<Rightarrow> (d', text @ t)) (d, acc) bytes =
     (fst (decode dec d bytes), acc @ snd (decode dec d bytes))"
proof (induction bytes arbitrary: d acc)
  case Nil
  show ?case by (simp add: decode_def)
next
  case (Cons b bs)
  obtain d' t where st: "dec d b = (d', t)" by (cases "dec d b")
  have "foldl (\<lambda>(d, text) b. case dec d b of (d', t) \<Rightarrow> (d', text @ t)) (d, acc) (b # bs) =
        foldl (\<lambda>(d, text) b. case dec d b of (d', t) \<Rightarrow> (d', text @ t)) (d', acc @ t) bs"
    by (simp add: st)
  also have "\<dots> = (fst (decode dec d' bs), (acc @ t) @ snd (decode dec d' bs))"
    by (rule Cons.IH)
  finally have l: "foldl (\<lambda>(d, text) b. case dec d b of (d', t) \<Rightarrow> (d', text @ t)) (d, acc) (b # bs) =
      (fst (decode dec d' bs), (acc @ t) @ snd (decode dec d' bs))" .
  have "decode dec d (b # bs) =
        foldl (\<lambda>(d, text) b. case dec d b of (d', t) \<Rightarrow> (d', text @ t)) (d', [] @ t) bs"
    by (simp add: decode_def st)
  also have "\<dots> = (fst (decode dec d' bs), ([] @ t) @ snd (decode dec d' bs))"
    by (rule Cons.IH)
  finally have r: "decode dec d (b # bs) = (fst (decode dec d' bs), t @ snd (decode dec d' bs))"
    by simp
  show ?case unfolding l r by simp
qed

lemma decode_append:
  "decode dec d (a @ b) =
     (fst (decode dec (fst (decode dec d a)) b),
      snd (decode dec d a) @ snd (decode dec (fst (decode dec d a)) b))"
proof -
  let ?F = "\<lambda>(d, text) b. case dec d b of (d', t) \<Rightarrow> (d', text @ t)"
  have "decode dec d (a @ b) = foldl ?F (decode dec d a) b"
    by (simp add: decode_def)
  also have "\<dots> = foldl ?F (fst (decode dec d a), snd (decode dec d a)) b"
    by simp
  also have "\<dots> = (fst (decode dec (fst (decode dec d a)) b),
      snd (decode dec d a) @ snd (decode dec (fst (decode dec d a)) b))"
    by (rule decode_acc)
  finally show ?thesis .
qed

lemma relay_read_eq:
  "relay_read dec st value =
     \<lparr> decoder_state = fst (decode dec (decoder_state st) value),
       buffer = last (split_lines (buffer st @ snd (decode dec (decoder_state st) value))),
       enqueued = enqueued st @ concat (map process_line
          (butlast (split_lines (buffer st @ snd (decode dec (decoder_state st) value))))) \<rparr>"
  by (simp add: relay_read_def Let_def split_lines_not_Nil split: prod.splits)

lemma relay_read_append:
  "relay_read dec (relay_read dec st a) b = relay_read dec st (a @ b)"
proof -
  let ?t1 = "snd (decode dec (decoder_state st) a)"
  let ?d1 = "fst (decode dec (decoder_state st) a)"
  let ?t2 = "snd (decode dec ?d1 b)"
  have s: "split_lines (buffer st @ ?t1 @ ?t2) =
      butlast (split_lines (buffer st @ ?t1)) @
      split_lines (last (split_lines (buffer st @ ?t1)) @ ?t2)"
    using split_lines_append [of "buffer st @ ?t1" ?t2] by simp
  show ?thesis
    unfolding relay_read_eq [of dec "relay_read dec st a" b]
    unfolding relay_read_eq [of dec st a] relay_read_eq [of dec st "a @ b"]
    by (simp add: decode_append s split_lines_not_Nil butlast_append)
qed

lemma relay_read_Nil:
  "CHR 0x0A \<notin> set (buffer st) \<Longrightarrow> relay_read dec st [] = st"
  by (simp add: relay_read_eq decode_def split_lines_no_newline)

lemma relay_read_buffer: "CHR 0x0A \<notin> set (buffer (relay_read dec st value))"
  by (simp add: relay_read_eq last_split_lines_no_newline)

lemma foldl_relay_read:
  "CHR 0x0A \<notin> set (buffer st) \<Longrightarrow>
   foldl (relay_read dec) st chunks = relay_read dec st (concat chunks)"
proof (induction chunks arbitrary: st)
  case Nil
  then show ?case by (simp add: relay_read_Nil)
next
  case (Cons c cs)
  have "foldl (relay_read dec) st (c # cs) = foldl (relay_read dec) (relay_read dec st c) cs"
    by simp
  also have "\<dots> = relay_read dec (relay_read dec st c) (concat cs)"
    by (rule Cons.IH) (rule relay_read_buffer)
  also have "\<dots> = relay_read dec st (concat (c # cs))"
    by (simp add: relay_read_append)
  finally show ?case .
qed

text \<open>
  Claim C1: for every payload and every way of splitting its bytes into an ordered
  sequence of chunks, the Relay enqueues exactly the same sequence of events as for
  the payload fed as one chunk.  This holds for every payload, valid or not, and for
  every streaming decoder.
\<close>

theorem relay_chunk_invariance:
  "concat chunks = payload \<Longrightarrow> relay dec d0 chunks = relay dec d0 [payload]"
  by (simp add: relay_def foldl_relay_read)

theorem relay_chunk_invariance_witness:
  \<open>concat [''{"type":"delta","token":"Hel'',
           ''lo"}\<newline>{"type":"delta","token":" world"}\<newline>'',
           ''{"type":"done"}\<newline>''] =
     ''{"type":"delta","token":"Hello"}\<newline>{"type":"delta","token":" world"}\<newline>{"type":"done"}\<newline>'' \<and>
   relay ascii_decoder ()
     [''{"type":"delta","token":"Hel'',
      ''lo"}\<newline>{"type":"delta","token":" world"}\<newline>'',
      ''{"type":"done"}\<newline>''] =
   relay ascii_decoder ()
     [''{"type":"delta","token":"Hello"}\<newline>{"type":"delta","token":" world"}\<newline>{"type":"done"}\<newline>''] \<and>
   relay ascii_decoder ()
     [''{"type":"delta","token":"Hello"}\<newline>{"type":"delta","token":" world"}\<newline>{"type":"done"}\<newline>''] =
     [''{"type":"delta","token":"Hello"}\<newline>'',
      ''{"type":"delta","token":" world"}\<newline>'',
      ''{"type":"done"}\<newline>'']\<close>
proof -
  have h: \<open>concat [''{"type":"delta","token":"Hel'',
           ''lo"}\<newline>{"type":"delta","token":" world"}\<newline>'',
           ''{"type":"done"}\<newline>''] =
     ''{"type":"delta","token":"Hello"}\<newline>{"type":"delta","token":" world"}\<newline>{"type":"done"}\<newline>''\<close>
    by simp
  have v: \<open>relay ascii_decoder ()
     [''{"type":"delta","token":"Hello"}\<newline>{"type":"delta","token":" world"}\<newline>{"type":"done"}\<newline>''] =
     [''{"type":"delta","token":"Hello"}\<newline>'',
      ''{"type":"delta","token":" world"}\<newline>'',
      ''{"type":"done"}\<newline>'']\<close>
    by code_simp
  from relay_chunk_invariance [OF h, of ascii_decoder "()"] h v
  show ?thesis by blast
qed

lemma dropWhile_all: "(\<forall>c \<in> set s. P c) \<Longrightarrow> dropWhile P s = []"
  by (induction s) auto

lemma trim_Nil_iff: "trim s = [] \<longleftrightarrow> (\<forall>c \<in> set s. is_space c)"
proof
  assume "trim s = []"
  then have a: "dropWhile is_space (rev (dropWhile is_space s)) = []"
    by (simp add: trim_def)
  have "dropWhile is_space s = []"
  proof (cases "dropWhile is_space s")
    case Nil
    then show ?thesis .
  next
    case (Cons x xs)
    then have "\<not> is_space x"
      by (simp add: dropWhile_eq_Cons_conv)
    moreover have "is_space x"
      using a Cons by (simp add: dropWhile_eq_Nil_conv)
    ultimately show ?thesis by simp
  qed
  then show "\<forall>c \<in> set s. is_space c"
    by (simp add: dropWhile_eq_Nil_conv)
next
  assume "\<forall>c \<in> set s. is_space c"
  then have d: "dropWhile is_space s = []"
    by (rule dropWhile_all)
  show "trim s = []" unfolding trim_def d by simp
qed

lemma parse_value_blank:
  assumes "\<forall>c \<in> set s. is_space c"
  shows "parse_value n s = None"
proof (cases n)
  case 0
  then show ?thesis by simp
next
  case (Suc m)
  show ?thesis
  proof (cases "skip_space s")
    case Nil
    with Suc show ?thesis by simp
  next
    case (Cons c cs)
    then have d: "dropWhile is_json_space s = c # cs"
      by (simp add: skip_space_def)
    then have "c \<in> set (dropWhile is_json_space s)" by simp
    then have "c \<in> set s" by (rule set_dropWhileD)
    with assms have sp: "is_space c" by simp
    have nj: "\<not> is_json_space c"
      using d by (simp add: dropWhile_eq_Cons_conv)
    from sp nj have c: "of_char c \<in> {11, 12, 160 :: nat}"
      by (auto simp: is_space_def is_json_space_def)
    then have ne: "c \<noteq> CHR ''{''" "c \<noteq> CHR ''[''" "c \<noteq> CHR 0x22" "c \<noteq> CHR ''t''"
      "c \<noteq> CHR ''f''" "c \<noteq> CHR ''n''" "c \<noteq> CHR ''-''" "c \<noteq> CHR ''0''" "\<not> is_digit c"
      by (auto simp: is_digit_def)
    have "parse_number (c # cs) = None"
      using ne by (simp add: parse_number_def parse_int_part_def)
    with Suc Cons ne show ?thesis by simp
  qed
qed

lemma JSON_parse_not_blank: "JSON_parse s = Some v \<Longrightarrow> trim s \<noteq> []"
proof
  assume p: "JSON_parse s = Some v" and "trim s = []"
  then have "\<forall>c \<in> set s. is_space c" by (simp add: trim_Nil_iff)
  then have "parse_value (2 * length s + 2) s = None" by (rule parse_value_blank)
  with p show False by (simp add: JSON_parse_def)
qed

lemma validation_error_valid:
  "ChatStreamErrorSchema validation_error =
     Some (Error ''Invalid event format from backend'' (Some ''validation_error''))"
  by (simp add: ChatStreamErrorSchema_def validation_error_def strict_keys_def)

lemma tool_event_invalid:
  "map_of obj ''type'' = Some (JString ''tool'') \<Longrightarrow> ChatStreamEventSchema (JObject obj) = None"
  by (simp add: ChatStreamEventSchema_def)

lemma tool_line_replaced:
  assumes "JSON_parse line = Some (JObject obj)"
    and "map_of obj ''type'' = Some (JString ''tool'')"
  shows "process_line line =
     [stringify (Error ''Invalid event format from backend'' (Some ''validation_error''))
        @ ''\<newline>'']"
  using assms JSON_parse_not_blank [OF assms(1)]
  by (simp add: process_line_def tool_event_invalid validation_error_valid)

text \<open>
  Claim C2 says that for every input line that is the JSON of a tool event the
  validation against the stream-event schema succeeds and the Relay forwards the event.
  The union \<open>ChatStreamEventSchema\<close> has the three members delta, error and done and no
  member for \<open>tool\<close>, the fourth kind of event, which the Stream Consumer dispatches to
  its tool handler.  Validation of a tool event fails, and the Relay enqueues the
  synthetic error event in its place.
\<close>

theorem tool_event_not_forwarded:
  \<open>JSON_parse ''{"type":"tool","name":"generateFlashcards","args":{"topic":"x"}}'' =
     Some (JObject [(''type'', JString ''tool''), (''name'', JString ''generateFlashcards''),
                    (''args'', JObject [(''topic'', JString ''x'')])]) \<and>
   ChatStreamEventSchema
     (JObject [(''type'', JString ''tool''), (''name'', JString ''generateFlashcards''),
               (''args'', JObject [(''topic'', JString ''x'')])]) = None \<and>
   relay ascii_decoder ()
     [''{"type":"tool","name":"generateFlashcards","args":{"topic":"x"}}\<newline>''] =
     [''{"type":"error","message":"Invalid event format from backend","code":"validation_error"}\<newline>'']\<close>
  by code_simp

lemma remaining_buffer_rules:
  "process_remaining text =
     (case JSON_parse text of
        None \<Rightarrow> process_line text
      | Some parsed \<Rightarrow>
          (case ChatStreamEventSchema parsed of
             None \<Rightarrow> []
           | Some data \<Rightarrow> process_line text))"
  by (simp add: process_remaining_def process_line_def split: option.splits)

text \<open>
  Claim C6 says that the Relay treats a non-empty remaining buffer like a complete line,
  and in particular emits one \<open>validation_error\<close> event when the buffer parses as JSON
  and fails validation.  The pass over the remaining buffer only logs the failure: the
  same text enqueues nothing at the end of the stream and the error event when a line
  break follows it.
\<close>

theorem trailing_invalid_event_dropped:
  \<open>JSON_parse ''{"type":"delta"}'' = Some (JObject [(''type'', JString ''delta'')]) \<and>
   ChatStreamEventSchema (JObject [(''type'', JString ''delta'')]) = None \<and>
   relay ascii_decoder () [''{"type":"delta"}''] = [] \<and>
   relay ascii_decoder () [''{"type":"delta"}\<newline>''] =
     [''{"type":"error","message":"Invalid event format from backend","code":"validation_error"}\<newline>'']\<close>
  by code_simp

section \<open>Properties of the Stream Consumer\<close>

lemma consume_parts_skip:
  "consume_part part = Inr [] \<Longrightarrow>
   consume_parts (earlier @ part # later) = consume_parts (earlier @ later)"
  by (induction earlier) (auto split: sum.splits prod.splits)

text \<open>
  Claim C10: for every line that parses as JSON with \<open>type\<close> equal to \<open>error\<close> the
  Consumer calls none of its three handlers and throws nothing, and it goes on with the
  lines behind it: the run over the lines is the run without that line.  The synthetic
  error event of the Relay is such a line.
\<close>

theorem consumer_ignores_error_event:
  assumes "JSON_parse line = Some parsed"
    and "property parsed ''type'' = Some (JString ''error'')"
  shows "consume_part line = Inr [] \<and>
         consume_parts (earlier @ line # later) = consume_parts (earlier @ later) \<and>
         consume_part
           (stringify (Error ''Invalid event format from backend'' (Some ''validation_error'')))
           = Inr []"
proof -
  have "parsed \<noteq> JNull"
    using assms(2) by (auto simp: property_def)
  then have "dispatch parsed = Inr []"
    using assms(2) by (simp add: dispatch_def)
  then have 1: "consume_part line = Inr []"
    using assms(1) JSON_parse_not_blank [OF assms(1)] by (simp add: consume_part_def)
  have 2: "consume_part
      (stringify (Error ''Invalid event format from backend'' (Some ''validation_error'')))
      = Inr []"
    by code_simp
  from 1 2 show ?thesis
    by (simp add: consume_parts_skip)
qed

theorem consumer_ignores_error_event_witness:
  \<open>JSON_parse ''{"type":"error","message":"Invalid event format from backend","code":"validation_error"}'' =
     Some (JObject [(''type'', JString ''error''),
                    (''message'', JString ''Invalid event format from backend''),
                    (''code'', JString ''validation_error'')]) \<and>
   property (JObject [(''type'', JString ''error''),
                      (''message'', JString ''Invalid event format from backend''),
                      (''code'', JString ''validation_error'')]) ''type'' =
     Some (JString ''error'') \<and>
   consume_part ''{"type":"error","message":"Invalid event format from backend","code":"validation_error"}'' =
     Inr [] \<and>
   consume_parts ([''{"type":"delta","token":"Hi"}''] @
      ''{"type":"error","message":"Invalid event format from backend","code":"validation_error"}'' #
      [''{"type":"done"}'']) =
     ([OnToken (Some (JString ''Hi'')), OnDone (JObject [(''type'', JString ''done'')])], None)\<close>
proof -
  have h1: \<open>JSON_parse ''{"type":"error","message":"Invalid event format from backend","code":"validation_error"}'' =
     Some (JObject [(''type'', JString ''error''),
                    (''message'', JString ''Invalid event format from backend''),
                    (''code'', JString ''validation_error'')])\<close>
    by code_simp
  have h2: "property (JObject [(''type'', JString ''error''),
                      (''message'', JString ''Invalid event format from backend''),
                      (''code'', JString ''validation_error'')]) ''type'' =
     Some (JString ''error'')"
    by code_simp
  have v: \<open>consume_parts ([''{"type":"delta","token":"Hi"}''] @ [''{"type":"done"}'']) =
     ([OnToken (Some (JString ''Hi'')), OnDone (JObject [(''type'', JString ''done'')])], None)\<close>
    by code_simp
  from consumer_ignores_error_event [OF h1 h2, of \<open>[''{"type":"delta","token":"Hi"}'']\<close>
      \<open>[''{"type":"done"}'']\<close>] h1 h2 v
  show ?thesis by simp
qed

section \<open>Properties of the token handler\<close>

lemma foldl_onToken:
  "foldl onToken st tokens =
     (if tokens = [] then st
      else \<lparr> firstToken = False,
             lastMessage = (if firstToken st then [] else lastMessage st) @
                           concat (map strip_role_start tokens) \<rparr>)"
proof (induction tokens arbitrary: st)
  case Nil
  show ?case by simp
next
  case (Cons t ts)
  show ?case
    unfolding foldl_Cons Cons.IH [of "onToken st t"]
    by (simp add: onToken_def Let_def)
qed

lemma strip_role_start_prefix:
  assumes "toLowerCase p = ''assistant:''"
  shows "strip_role_start (p @ rest) = dropWhile is_space rest"
proof -
  have "length (toLowerCase p) = 10"
    unfolding assms by simp
  then have l: "length p = 10" by (simp add: toLowerCase_def)
  have m: "match_role (p @ rest) = Some (10 + length (takeWhile is_space rest))"
    using assms l by (simp add: match_role_def)
  have "drop (10 + length (takeWhile is_space rest)) (p @ rest) =
        drop (length (takeWhile is_space rest)) rest"
    using l by simp
  also have "\<dots> = dropWhile is_space rest"
    by (simp add: dropWhile_eq_drop)
  finally show ?thesis
    by (simp add: strip_role_start_def m)
qed

text \<open>
  Claim C4 says that the role prefix is stripped from the very first delta fragment
  only, before the first call of the token handler, and that a later fragment that
  begins with \<open>assistant:\<close> keeps it.  The Consumer passes the first fragment to the
  handler with its prefix, and the handler strips the prefix from a later fragment too.
\<close>

theorem later_fragment_loses_prefix:
  \<open>streamChat ascii_decoder () [''{"type":"delta","token":"assistant: Hi"}\<newline>''] =
     ([OnToken (Some (JString ''assistant: Hi''))], None) \<and>
   lastMessage (foldl onToken waiting [''Hello '', ''assistant: world'']) = ''Hello world''\<close>
  by code_simp

text \<open>
  Claim C4, amended: the Consumer passes every delta fragment to the token handler as it
  is, and the token handler of the chat page strips a leading \<open>assistant:\<close>, in any
  mix of upper and lower case and together with the white space behind it, from every
  fragment, the first one and every later one; the text of the message is the
  concatenation of the stripped fragments.
\<close>

theorem token_handler_strips_every_fragment:
  assumes "JSON_parse part = Some parsed"
    and "property parsed ''type'' = Some (JString ''delta'')"
    and "tokens \<noteq> []"
  shows "consume_part part = Inr [OnToken (property parsed ''token'')] \<and>
         lastMessage (foldl onToken waiting tokens) = concat (map strip_role_start tokens) \<and>
         (toLowerCase p = ''assistant:'' \<longrightarrow>
            strip_role_start (p @ rest) = dropWhile is_space rest)"
proof -
  have "parsed \<noteq> JNull"
    using assms(2) by (auto simp: property_def)
  then have "dispatch parsed = Inr [OnToken (property parsed ''token'')]"
    using assms(2) by (simp add: dispatch_def)
  then have a: "consume_part part = Inr [OnToken (property parsed ''token'')]"
    using assms(1) JSON_parse_not_blank [OF assms(1)] by (simp add: consume_part_def)
  have b: "lastMessage (foldl onToken waiting tokens) = concat (map strip_role_start tokens)"
    using assms(3) by (simp add: foldl_onToken waiting_def)
  from a b strip_role_start_prefix show ?thesis by blast
qed

theorem token_handler_strips_every_fragment_witness:
  \<open>JSON_parse ''{"type":"delta","token":"assistant: Hi"}'' =
     Some (JObject [(''type'', JString ''delta''), (''token'', JString ''assistant: Hi'')]) \<and>
   property (JObject [(''type'', JString ''delta''), (''token'', JString ''assistant: Hi'')])
     ''type'' = Some (JString ''delta'') \<and>
   [''Hello '', ''Assistant: world''] \<noteq> [] \<and>
   consume_part ''{"type":"delta","token":"assistant: Hi"}'' =
     Inr [OnToken (Some (JString ''assistant: Hi''))] \<and>
   lastMessage (foldl onToken waiting [''Hello '', ''Assistant: world'']) = ''Hello world'' \<and>
   toLowerCase ''Assistant:'' = ''assistant:'' \<and>
   strip_role_start (''Assistant:'' @ '' world'') = ''world''\<close>
proof -
  have h1: \<open>JSON_parse ''{"type":"delta","token":"assistant: Hi"}'' =
     Some (JObject [(''type'', JString ''delta''), (''token'', JString ''assistant: Hi'')])\<close>
    by code_simp
  have h2: "property (JObject [(''type'', JString ''delta''), (''token'', JString ''assistant: Hi'')])
     ''type'' = Some (JString ''delta'')"
    by code_simp
  have h3: "[''Hello '', ''Assistant: world''] \<noteq> ([] :: string list)"
    by simp
  have h4: "toLowerCase ''Assistant:'' = ''assistant:''"
    by code_simp
  have v1: "property (JObject [(''type'', JString ''delta''), (''token'', JString ''assistant: Hi'')])
     ''token'' = Some (JString ''assistant: Hi'')"
    by code_simp
  have v2: "concat (map strip_role_start [''Hello '', ''Assistant: world'']) = ''Hello world''"
    by code_simp
  have v3: "dropWhile is_space '' world'' = ''world''"
    by code_simp
  from token_handler_strips_every_fragment [OF h1 h2 h3, of "''Assistant:''" "'' world''"]
    h1 h2 h3 h4 v1 v2 v3
  show ?thesis by simp
qed

section \<open>Properties of the Duplicate Detector\<close>

lemma foldl_visit_section:
  assumes "\<forall>k n. seen k = Some n \<longrightarrow> n \<noteq> 0"
  shows "snd (foldl visit_section (seen, u) xs) = u @ keep_first (dom seen) xs"
  using assms
proof (induction xs arbitrary: seen u)
  case Nil
  show ?case by simp
next
  case (Cons x xs)
  let ?k = "section_signature x"
  have ih: "snd (foldl visit_section (seen(?k \<mapsto> m), u') xs) =
      u' @ keep_first (insert ?k (dom seen)) xs" if "m \<noteq> 0" for m u'
  proof -
    have "\<forall>k n. (seen(?k \<mapsto> m)) k = Some n \<longrightarrow> n \<noteq> 0"
      using Cons.prems that by simp
    then have "snd (foldl visit_section (seen(?k \<mapsto> m), u') xs) =
        u' @ keep_first (dom (seen(?k \<mapsto> m))) xs"
      by (rule Cons.IH)
    then show ?thesis by simp
  qed
  show ?case
  proof (cases "seen ?k")
    case None
    then have v: "visit_section (seen, u) x = (seen(?k \<mapsto> Suc 0), u @ [x])"
      by (simp add: visit_section_def)
    have n: "?k \<notin> dom seen" using None by (simp add: domIff)
    show ?thesis
      using n by (simp add: v ih)
  next
    case (Some c)
    with Cons.prems have c: "c \<noteq> 0" by simp
    then have v: "visit_section (seen, u) x = (seen(?k \<mapsto> Suc c), u)"
      using Some by (simp add: visit_section_def)
    have d: "?k \<in> dom seen" using Some by (simp add: domIff)
    then have e: "insert ?k (dom seen) = dom seen" by auto
    show ?thesis
      using d by (simp add: v ih e)
  qed
qed

lemma unique_sections_keep_first: "unique_sections xs = keep_first {} xs"
  using foldl_visit_section [of Map.empty "[]" xs] by (simp add: unique_sections_def)

lemma keep_first_index:
  "keep_first S xs =
     map ((!) xs)
       (filter (\<lambda>i. section_signature (xs ! i) \<notin> S \<union> set (map section_signature (take i xs)))
          [0..<length xs])"
proof (induction xs arbitrary: S)
  case Nil
  show ?case by simp
next
  case (Cons x xs)
  let ?P = "\<lambda>i. section_signature ((x # xs) ! i) \<notin>
              S \<union> set (map section_signature (take i (x # xs)))"
  have u: "[0..<length (x # xs)] = 0 # map Suc [0..<length xs]"
    by (simp add: upt_conv_Cons map_Suc_upt del: upt_Suc)
  have f: "filter ?P [0..<length (x # xs)] =
      (if ?P 0 then [0] else []) @ map Suc (filter (?P \<circ> Suc) [0..<length xs])"
    unfolding u by (simp add: filter_map)
  show ?case
  proof (cases "section_signature x \<in> S")
    case True
    have "filter (?P \<circ> Suc) [0..<length xs] =
          filter (\<lambda>i. section_signature (xs ! i) \<notin> S \<union> set (map section_signature (take i xs)))
            [0..<length xs]"
      using True by (intro filter_cong) auto
    then show ?thesis
      unfolding f using True Cons.IH [of S] by (simp add: comp_def)
  next
    case False
    have "filter (?P \<circ> Suc) [0..<length xs] =
          filter (\<lambda>i. section_signature (xs ! i) \<notin>
                    insert (section_signature x) S \<union> set (map section_signature (take i xs)))
            [0..<length xs]"
      by (intro filter_cong) auto
    then show ?thesis
      unfolding f using False Cons.IH [of "insert (section_signature x) S"]
      by (simp add: comp_def)
  qed
qed

lemma trim_decomposition:
  "\<exists>l t. a = l @ trim a @ t \<and> (\<forall>c \<in> set l. is_space c) \<and> (\<forall>c \<in> set t. is_space c)"
proof -
  let ?d = "dropWhile is_space a"
  have 1: "a = takeWhile is_space a @ ?d" by simp
  have "rev (takeWhile is_space (rev ?d) @ dropWhile is_space (rev ?d)) = rev (rev ?d)"
    by (simp only: takeWhile_dropWhile_id)
  then have "rev (dropWhile is_space (rev ?d)) @ rev (takeWhile is_space (rev ?d)) = ?d"
    by (simp only: rev_append rev_rev_ident)
  then have 2: "?d = trim a @ rev (takeWhile is_space (rev ?d))"
    by (simp only: trim_def)
  have 3: "\<forall>c \<in> set (takeWhile is_space a). is_space c"
    by (auto dest: set_takeWhileD)
  have 4: "\<forall>c \<in> set (rev (takeWhile is_space (rev ?d))). is_space c"
    by (auto dest: set_takeWhileD)
  from 1 2 have "a = takeWhile is_space a @ trim a @ rev (takeWhile is_space (rev ?d))"
    by simp
  with 3 4 show ?thesis by blast
qed

lemma trimmed_trim: "trimmed (trim a)"
proof (cases "trim a = []")
  case True
  then show ?thesis by (simp add: trimmed_def)
next
  case False
  let ?d = "dropWhile is_space a"
  let ?e = "dropWhile is_space (rev ?d)"
  have e: "?e \<noteq> []" using False by (simp add: trim_def)
  then have "\<not> is_space (hd ?e)" by (rule hd_dropWhile)
  then have l: "\<not> is_space (last (trim a))"
    using e by (simp add: trim_def last_rev)
  have d: "?d \<noteq> []"
  proof
    assume z: "?d = []"
    have "?e = []" unfolding z by simp
    with e show False by simp
  qed
  then have hd: "\<not> is_space (hd ?d)" by (rule hd_dropWhile)
  have "rev ?d = takeWhile is_space (rev ?d) @ ?e" by simp
  then have "last (rev ?d) = last (takeWhile is_space (rev ?d) @ ?e)" by (rule arg_cong)
  then have "last (rev ?d) = last ?e" using e by (simp del: takeWhile_dropWhile_id)
  then have "hd (trim a) = hd ?d"
    using d e by (simp add: trim_def hd_rev last_rev)
  with hd l show ?thesis by (simp add: trimmed_def)
qed

lemma trim_padded:
  assumes "trimmed x" and "\<forall>c \<in> set l. is_space c" and "\<forall>c \<in> set t. is_space c"
  shows "trim (l @ x @ t) = x"
proof (cases "x = []")
  case True
  with assms(2,3) have "\<forall>c \<in> set (l @ x @ t). is_space c" by auto
  then have "trim (l @ x @ t) = []" by (simp only: trim_Nil_iff)
  with True show ?thesis by simp
next
  case False
  with assms(1) have h: "\<not> is_space (hd x)" and la: "\<not> is_space (last x)"
    by (simp_all add: trimmed_def)
  have 1: "dropWhile is_space (l @ x @ t) = x @ t"
  proof -
    have "dropWhile is_space (l @ x @ t) = dropWhile is_space (x @ t)"
      using assms(2) by (intro dropWhile_append2) simp
    also have "\<dots> = x @ t"
      using False h by (cases x) simp_all
    finally show ?thesis .
  qed
  have 2: "dropWhile is_space (rev t @ rev x) = rev x"
  proof -
    have "dropWhile is_space (rev t @ rev x) = dropWhile is_space (rev x)"
      using assms(3) by (intro dropWhile_append2) simp
    also have "\<dots> = rev x"
      using False la by (cases "rev x") (simp_all add: hd_rev [symmetric])
    finally show ?thesis .
  qed
  show ?thesis
    by (simp add: trim_def 1 2)
qed

lemma str_includes_self: "str_includes s s"
  by (cases s) simp_all

lemma similarity_self: "s \<noteq> [] \<Longrightarrow> calculateSimilarity s s = 9 / 10"
  by (simp add: calculateSimilarity_def Let_def str_includes_self)

lemma substring_from_start: "substring s 0 n = take n s"
  by (simp add: substring_def Let_def min_def)

lemma doubled_halves:
  assumes "trim a \<noteq> []"
  shows "trim (substring (trim (a @ a)) 0 (length (trim (a @ a)) div 2)) = trim a"
    and "trim (drop (length (trim (a @ a)) div 2) (trim (a @ a))) = trim a"
proof -
  let ?x = "trim a"
  obtain l t where a: "a = l @ ?x @ t" and l: "\<forall>c \<in> set l. is_space c"
    and t: "\<forall>c \<in> set t. is_space c"
    using trim_decomposition [of a] by blast
  have x: "trimmed ?x" by (rule trimmed_trim)
  let ?m = "t @ l"
  have m: "\<forall>c \<in> set ?m. is_space c" using l t by auto
  have tr: "trimmed (?x @ ?m @ ?x)"
    using x assms by (simp add: trimmed_def)
  have "a @ a = l @ (?x @ ?m @ ?x) @ t"
    using a by (metis append.assoc)
  then have "trim (a @ a) = trim (l @ (?x @ ?m @ ?x) @ t)" by simp
  also have "\<dots> = ?x @ ?m @ ?x"
    using tr l t by (rule trim_padded)
  finally have content: "trim (a @ a) = ?x @ ?m @ ?x" .
  let ?k = "length ?m div 2"
  have mid: "length (?x @ ?m @ ?x) div 2 = length ?x + ?k"
    by simp
  have "take (length ?x + ?k) (?x @ ?m @ ?x) = [] @ ?x @ take ?k ?m"
    by simp
  moreover have "trim ([] @ ?x @ take ?k ?m) = ?x"
    using x _ _ by (rule trim_padded) (use m in \<open>auto dest: in_set_takeD\<close>)
  ultimately have first: "trim (take (length ?x + ?k) (?x @ ?m @ ?x)) = ?x"
    by simp
  have "drop (length ?x + ?k) (?x @ ?m @ ?x) = drop ?k ?m @ ?x @ []"
    by simp
  moreover have "trim (drop ?k ?m @ ?x @ []) = ?x"
    using x _ _ by (rule trim_padded) (use m in \<open>auto dest: in_set_dropD\<close>)
  ultimately have second: "trim (drop (length ?x + ?k) (?x @ ?m @ ?x)) = ?x"
    by simp
  show "trim (substring (trim (a @ a)) 0 (length (trim (a @ a)) div 2)) = trim a"
    unfolding content mid substring_from_start by (rule first)
  show "trim (drop (length (trim (a @ a)) div 2) (trim (a @ a))) = trim a"
    unfolding content mid by (rule second)
qed

lemma deduplicate_doubled:
  assumes "length (trim a) > 100"
  shows "deduplicate (a @ a) = trim a"
proof -
  have ne: "trim a \<noteq> []" using assms by auto
  have sim: "calculateSimilarity (trim a) (trim a) = 9 / 10"
    using ne by (rule similarity_self)
  show ?thesis
    unfolding deduplicate_def Let_def doubled_halves [OF ne] sim
    using assms by simp
qed

lemma trim_trimmed: "trimmed x \<Longrightarrow> trim x = x"
  using trim_padded [of x "[]" "[]"] by simp

lemma replace_spaces_run:
  assumes "is_space s" and "r = [] \<or> \<not> is_space (hd r)"
  shows "replace_spaces (replicate (Suc n) s @ r) = CHR '' '' # replace_spaces r"
proof (induction n)
  case 0
  show ?case using assms by auto
next
  case (Suc n)
  have "replace_spaces (replicate (Suc (Suc n)) s @ r) =
        replace_spaces (s # (replicate (Suc n) s @ r))"
    by simp
  also have "\<dots> = replace_spaces (replicate (Suc n) s @ r)"
    using assms(1) by (subst replace_spaces.simps) simp
  finally show ?case using Suc by simp
qed

lemma split_blank_lines_not_Nil: "split_blank_lines s \<noteq> []"
  by (induction s rule: split_blank_lines.induct) (auto split: list.splits)

lemma split_blank_lines_plain: "CHR 0x0A \<notin> set p \<Longrightarrow> split_blank_lines p = [p]"
  by (induction p) (auto simp: is_newline_def)

lemma split_blank_lines_sep:
  assumes "CHR 0x0A \<notin> set p" and "q = [] \<or> hd q \<noteq> CHR 0x0A"
  shows "split_blank_lines (p @ ''\<newline>\<newline>'' @ q) = p # split_blank_lines q"
  using assms(1)
proof (induction p)
  case Nil
  have "dropWhile is_newline q = q"
    using assms(2) by (cases q) (auto simp: is_newline_def)
  then show ?case by (simp add: is_newline_def)
next
  case (Cons c cs)
  then show ?case by (auto simp: is_newline_def)
qed

lemma dedupe_paragraphs_plain:
  "CHR 0x0A \<notin> set content \<Longrightarrow> dedupe_paragraphs content = content"
  by (simp add: dedupe_paragraphs_def split_blank_lines_plain)

lemma split_blank_lines_whole:
  "\<not> str_includes p ''\<newline>\<newline>'' \<Longrightarrow> split_blank_lines p = [p]"
proof (induction p)
  case Nil
  show ?case by simp
next
  case (Cons c cs)
  from Cons.prems have np: "\<not> prefix ''\<newline>\<newline>'' (c # cs)"
    and ni: "\<not> str_includes cs ''\<newline>\<newline>''"
    by simp_all
  from np have "\<not> (is_newline c \<and> cs \<noteq> [] \<and> is_newline (hd cs))"
    by (cases cs) (auto simp: is_newline_def)
  then show ?case
    using Cons.IH [OF ni] by simp
qed

lemma split_blank_lines_section:
  assumes "\<not> str_includes p ''\<newline>\<newline>''" and "p = [] \<or> last p \<noteq> CHR 0x0A"
    and "q = [] \<or> hd q \<noteq> CHR 0x0A"
  shows "split_blank_lines (p @ ''\<newline>\<newline>'' @ q) = p # split_blank_lines q"
  using assms(1,2)
proof (induction p)
  case Nil
  have "dropWhile is_newline q = q"
    using assms(3) by (cases q) (auto simp: is_newline_def)
  then show ?case by (simp add: is_newline_def)
next
  case (Cons c cs)
  from Cons.prems have np: "\<not> prefix ''\<newline>\<newline>'' (c # cs)"
    and ni: "\<not> str_includes cs ''\<newline>\<newline>''"
    and la: "last (c # cs) \<noteq> CHR 0x0A"
    by simp_all
  have l: "cs = [] \<or> last cs \<noteq> CHR 0x0A"
    using la by (cases cs) auto
  have "\<not> (is_newline c \<and> is_newline (hd (cs @ ''\<newline>\<newline>'' @ q)))"
    using np la by (cases cs) (auto simp: is_newline_def)
  then show ?case
    using Cons.IH [OF ni l] by simp
qed

lemma dedupe_paragraphs_repeated:
  assumes a: "plain_section a" and b: "plain_section b"
    and d: "section_signature a \<noteq> section_signature b"
  shows "dedupe_paragraphs (a @ ''\<newline>\<newline>'' @ b @ ''\<newline>\<newline>'' @ a) =
         a @ ''\<newline>\<newline>'' @ b"
proof -
  from a have ta: "trim a \<noteq> []" and ia: "\<not> str_includes a ''\<newline>\<newline>''"
    and ha: "hd a \<noteq> CHR 0x0A" and la: "last a \<noteq> CHR 0x0A"
    by (simp_all add: plain_section_def)
  from b have tb: "trim b \<noteq> []" and ib: "\<not> str_includes b ''\<newline>\<newline>''"
    and hb: "hd b \<noteq> CHR 0x0A" and lb: "last b \<noteq> CHR 0x0A"
    by (simp_all add: plain_section_def)
  have na: "a \<noteq> []" and nb: "b \<noteq> []"
    using ta tb by (auto simp: trim_def)
  have hb': "hd (b @ ''\<newline>\<newline>'' @ a) \<noteq> CHR 0x0A" using hb nb by (cases b) auto
  have "split_blank_lines (a @ ''\<newline>\<newline>'' @ (b @ ''\<newline>\<newline>'' @ a)) =
      a # split_blank_lines (b @ ''\<newline>\<newline>'' @ a)"
    using ia by (rule split_blank_lines_section) (simp_all only: la hb' simp_thms)
  also have "split_blank_lines (b @ ''\<newline>\<newline>'' @ a) = b # split_blank_lines a"
    using ib by (rule split_blank_lines_section) (simp_all only: lb ha simp_thms)
  also have "split_blank_lines a = [a]"
    using ia by (rule split_blank_lines_whole)
  finally have s: "split_blank_lines (a @ ''\<newline>\<newline>'' @ b @ ''\<newline>\<newline>'' @ a) = [a, b, a]" .
  have f: "filter (\<lambda>s. trim s \<noteq> []) [a, b, a] = [a, b, a]"
    using ta tb by simp
  have u: "unique_sections [a, b, a] = [a, b]"
    unfolding unique_sections_keep_first using d by auto
  show ?thesis
    unfolding dedupe_paragraphs_def s f Let_def u by simp
qed

text \<open>
  Claim C5, amended: the signature of a section is computed from the section without
  its leading and trailing white space, in lower case, by taking the first 150
  characters and then collapsing every run of white space to one space.  A section is
  kept exactly when its signature is not the signature of an earlier section.  When at
  least one section is discarded the kept sections are joined with one blank line in
  their order; otherwise the text stays as it is.  In particular, let \<open>A\<close> and \<open>B\<close> be two
  sections, of one line or of several lines: each of them is not blank, contains no
  two line breaks in a row, and neither begins nor ends with a line break.  If their
  signatures differ, the text \<open>A\<close>, blank line, \<open>B\<close>, blank line, \<open>A\<close> becomes \<open>A\<close>, blank
  line, \<open>B\<close>.
\<close>

theorem paragraph_check:
  "section_signature section = replace_spaces (take 150 (toLowerCase (trim section))) \<and>
   dedupe_paragraphs content =
     (let sections = filter (\<lambda>s. trim s \<noteq> []) (split_blank_lines content);
          kept = map ((!) sections)
                   (filter (\<lambda>i. section_signature (sections ! i) \<notin>
                                  set (map section_signature (take i sections)))
                      [0..<length sections])
      in if length kept < length sections then join ''\<newline>\<newline>'' kept else content) \<and>
   (trim a \<noteq> [] \<and> \<not> str_includes a ''\<newline>\<newline>'' \<and> hd a \<noteq> CHR 0x0A \<and> last a \<noteq> CHR 0x0A \<and>
    trim b \<noteq> [] \<and> \<not> str_includes b ''\<newline>\<newline>'' \<and> hd b \<noteq> CHR 0x0A \<and> last b \<noteq> CHR 0x0A \<and>
    section_signature a \<noteq> section_signature b \<longrightarrow>
    dedupe_paragraphs (a @ ''\<newline>\<newline>'' @ b @ ''\<newline>\<newline>'' @ a) = a @ ''\<newline>\<newline>'' @ b)"
proof -
  have 1: "section_signature section = replace_spaces (take 150 (toLowerCase (trim section)))"
    by (simp only: section_signature_def substring_from_start)
  define sections where "sections = filter (\<lambda>s. trim s \<noteq> []) (split_blank_lines content)"
  define kept where "kept = map ((!) sections)
                   (filter (\<lambda>i. section_signature (sections ! i) \<notin>
                                  set (map section_signature (take i sections)))
                      [0..<length sections])"
  have k: "unique_sections sections = kept"
    unfolding unique_sections_keep_first keep_first_index kept_def by simp
  have short: "length kept = length sections" if "\<not> length sections > 1"
  proof -
    from that consider "sections = []" | x where "sections = [x]"
      by (cases sections rule: list.exhaust [case_product list.exhaust]) auto
    then show ?thesis
      unfolding k [symmetric] unique_sections_keep_first by cases simp_all
  qed
  have "dedupe_paragraphs content =
      (if length kept < length sections then join ''\<newline>\<newline>'' kept else content)"
    unfolding dedupe_paragraphs_def sections_def [symmetric] Let_def k
    using short by auto
  then have 2: "dedupe_paragraphs content =
     (let sections = filter (\<lambda>s. trim s \<noteq> []) (split_blank_lines content);
          kept = map ((!) sections)
                   (filter (\<lambda>i. section_signature (sections ! i) \<notin>
                                  set (map section_signature (take i sections)))
                      [0..<length sections])
      in if length kept < length sections then join ''\<newline>\<newline>'' kept else content)"
    unfolding sections_def kept_def Let_def .
  have 3: "dedupe_paragraphs (a @ ''\<newline>\<newline>'' @ b @ ''\<newline>\<newline>'' @ a) = a @ ''\<newline>\<newline>'' @ b"
    if "plain_section a" and "plain_section b"
      and "section_signature a \<noteq> section_signature b"
    using that by (rule dedupe_paragraphs_repeated)
  from 1 2 3 show ?thesis
    unfolding plain_section_def by blast
qed

theorem paragraph_check_witness:
  "trim ''Alpha\<newline>one'' \<noteq> [] \<and> \<not> str_includes ''Alpha\<newline>one'' ''\<newline>\<newline>'' \<and>
   hd ''Alpha\<newline>one'' \<noteq> CHR 0x0A \<and> last ''Alpha\<newline>one'' \<noteq> CHR 0x0A \<and>
   trim ''Beta'' \<noteq> [] \<and> \<not> str_includes ''Beta'' ''\<newline>\<newline>'' \<and>
   hd ''Beta'' \<noteq> CHR 0x0A \<and> last ''Beta'' \<noteq> CHR 0x0A \<and>
   section_signature ''Alpha\<newline>one'' \<noteq> section_signature ''Beta'' \<and>
   dedupe_paragraphs (''Alpha\<newline>one'' @ ''\<newline>\<newline>'' @ ''Beta'' @ ''\<newline>\<newline>'' @ ''Alpha\<newline>one'') =
     ''Alpha\<newline>one'' @ ''\<newline>\<newline>'' @ ''Beta''"
proof -
  have a1: "trim ''Alpha\<newline>one'' \<noteq> []" and b1: "trim ''Beta'' \<noteq> []"
    by code_simp+
  have a2: "\<not> str_includes ''Alpha\<newline>one'' ''\<newline>\<newline>''"
    and b2: "\<not> str_includes ''Beta'' ''\<newline>\<newline>''"
    by simp_all
  have a3: "hd ''Alpha\<newline>one'' \<noteq> CHR 0x0A" and b3: "hd ''Beta'' \<noteq> CHR 0x0A"
    by simp_all
  have a4: "last ''Alpha\<newline>one'' \<noteq> CHR 0x0A" and b4: "last ''Beta'' \<noteq> CHR 0x0A"
    by simp_all
  have d: "section_signature ''Alpha\<newline>one'' \<noteq> section_signature ''Beta''"
    by code_simp
  from paragraph_check [of _ _ "''Alpha\<newline>one''" "''Beta''"] a1 a2 a3 a4 b1 b2 b3 b4 d
  show ?thesis by blast
qed

text \<open>
  Two sections that differ only behind a long run of white space: the letter \<open>a\<close>, 150
  spaces and one more character.
\<close>

lemma replace_spaces_other: "\<not> is_space c \<Longrightarrow> replace_spaces (c # cs) = c # replace_spaces cs"
  by simp

lemma replace_spaces_gap:
  assumes "is_space s" and "r = [] \<or> \<not> is_space (hd r)" and "0 < n"
  shows "replace_spaces (replicate n s @ r) = CHR '' '' # replace_spaces r"
proof -
  obtain m where "n = Suc m" using assms(3) by (cases n) auto
  then show ?thesis using replace_spaces_run [OF assms(1,2), of m] by simp
qed

lemma gap_trimmed: "\<not> is_space q \<Longrightarrow> trimmed (''a'' @ replicate 150 (CHR '' '') @ [q])"
  by (simp add: trimmed_def is_space_def)

lemma gap_lower: "lower_char q = q \<Longrightarrow> toLowerCase (''a'' @ replicate 150 (CHR '' '') @ [q]) = ''a'' @ replicate 150 (CHR '' '') @ [q]"
  by (simp add: toLowerCase_def lower_char_def)

lemma gap_cut: "substring (''a'' @ replicate 150 (CHR '' '') @ [q]) 0 150 = CHR ''a'' # replicate 149 (CHR '' '') @ []"
  by (simp add: substring_from_start)

lemma gap_collapse_cut: "replace_spaces (replicate 149 (CHR '' '') @ []) = CHR '' '' # replace_spaces []"
  by (rule replace_spaces_gap) (simp_all add: is_space_def)

lemma gap_collapse: "\<not> is_space q \<Longrightarrow> replace_spaces (replicate 150 (CHR '' '') @ [q]) = CHR '' '' # replace_spaces [q]"
  by (rule replace_spaces_gap) (simp_all add: is_space_def)

lemma gap_no_newline: "\<not> is_space q \<Longrightarrow> CHR 0x0A \<notin> set (''a'' @ replicate 150 (CHR '' '') @ [q])"
  by (auto simp: is_space_def)

lemma gap_trim:
  "\<not> is_space q \<Longrightarrow> trim (''a'' @ replicate 150 (CHR '' '') @ [q]) = ''a'' @ replicate 150 (CHR '' '') @ [q]"
  by (rule trim_trimmed) (rule gap_trimmed)

lemma gap_signature:
  assumes "\<not> is_space q" and "lower_char q = q"
  shows "section_signature (''a'' @ replicate 150 (CHR '' '') @ [q]) = ''a ''"
proof -
  have na: "\<not> is_space (CHR ''a'')" by (simp add: is_space_def)
  have "section_signature (''a'' @ replicate 150 (CHR '' '') @ [q]) =
        replace_spaces (CHR ''a'' # replicate 149 (CHR '' '') @ [])"
    unfolding section_signature_def gap_trim [OF assms(1)] gap_lower [OF assms(2)] gap_cut ..
  also have "\<dots> = CHR ''a'' # replace_spaces (replicate 149 (CHR '' '') @ [])"
    using na by (rule replace_spaces_other)
  also have "\<dots> = CHR ''a'' # CHR '' '' # replace_spaces []"
    unfolding gap_collapse_cut ..
  finally show ?thesis by simp
qed

lemma gap_normalized:
  assumes "\<not> is_space q" and "lower_char q = q"
  shows "replace_spaces (toLowerCase (''a'' @ replicate 150 (CHR '' '') @ [q])) =
         [CHR ''a'', CHR '' '', q]"
proof -
  have na: "\<not> is_space (CHR ''a'')" by (simp add: is_space_def)
  have "replace_spaces (toLowerCase (''a'' @ replicate 150 (CHR '' '') @ [q])) =
        replace_spaces (CHR ''a'' # replicate 150 (CHR '' '') @ [q])"
    unfolding gap_lower [OF assms(2)] by simp
  also have "\<dots> = CHR ''a'' # replace_spaces (replicate 150 (CHR '' '') @ [q])"
    using na by (rule replace_spaces_other)
  also have "\<dots> = CHR ''a'' # CHR '' '' # replace_spaces [q]"
    unfolding gap_collapse [OF assms(1)] ..
  also have "\<dots> = [CHR ''a'', CHR '' '', q]"
    using assms(1) by simp
  finally show ?thesis .
qed

lemma gap_length: "length (''a'' @ replicate 150 (CHR '' '') @ [q]) = 152"
  by simp

lemma gap_similarity:
  "calculateSimilarity (''a'' @ replicate 150 (CHR '' '') @ ''b'')
                       (''a'' @ replicate 150 (CHR '' '') @ ''c'') = 0"
proof -
  have b: "\<not> is_space (CHR ''b'')" "lower_char (CHR ''b'') = CHR ''b''"
    and c: "\<not> is_space (CHR ''c'')" "lower_char (CHR ''c'') = CHR ''c''"
    by (simp_all add: is_space_def lower_char_def)
  have 1: "str_includes ''a c'' ''a b'' = False" by simp
  have 2: "str_includes ''a b'' (substring ''a c'' 0 (length ''a b'')) = False"
    by (simp add: substring_def)
  have 3: "long_words ''a c'' = []"
    by (simp add: long_words_def is_space_def)
  show ?thesis
    unfolding calculateSimilarity_def Let_def gap_length
    by (simp only: less_irrefl if_False gap_length gap_normalized [OF b]
          gap_normalized [OF c] 1 2 3) simp
qed

lemma gap_paragraphs:
  "dedupe_paragraphs ((''a'' @ replicate 150 (CHR '' '') @ ''b'') @ ''\<newline>\<newline>'' @
                      (''a'' @ replicate 150 (CHR '' '') @ ''c'')) =
     ''a'' @ replicate 150 (CHR '' '') @ ''b''"
proof -
  let ?A = "''a'' @ replicate 150 (CHR '' '') @ ''b''"
  let ?B = "''a'' @ replicate 150 (CHR '' '') @ ''c''"
  have b: "\<not> is_space (CHR ''b'')" "lower_char (CHR ''b'') = CHR ''b''"
    and c: "\<not> is_space (CHR ''c'')" "lower_char (CHR ''c'') = CHR ''c''"
    by (simp_all add: is_space_def lower_char_def)
  have "split_blank_lines (?A @ ''\<newline>\<newline>'' @ ?B) = ?A # split_blank_lines ?B"
    by (rule split_blank_lines_sep) (simp_all add: gap_no_newline [OF b(1)])
  also have "split_blank_lines ?B = [?B]"
    by (rule split_blank_lines_plain) (rule gap_no_newline [OF c(1)])
  finally have s: "split_blank_lines (?A @ ''\<newline>\<newline>'' @ ?B) = [?A, ?B]" .
  have f: "filter (\<lambda>s. trim s \<noteq> []) [?A, ?B] = [?A, ?B]"
    by (simp only: filter.simps gap_trim [OF b(1)] gap_trim [OF c(1)]) simp
  have u: "unique_sections [?A, ?B] = [?A]"
    unfolding unique_sections_keep_first
    by (simp only: keep_first.simps gap_signature [OF b] gap_signature [OF c]) simp
  show ?thesis
    unfolding dedupe_paragraphs_def s f Let_def u by simp
qed

text \<open>
  Claim C5 says that the signature of a section is the section in lower case with its
  runs of white space collapsed, cut to the first 150 characters, and that a section is
  kept exactly when that signature has not occurred before.  The source cuts to 150
  characters first and collapses afterwards.  The two sections below have different
  signatures in the sense of the claim and the same signature in the source, and the
  detector discards the second one.
\<close>

theorem signature_order:
  "spec_signature (''a'' @ replicate 150 (CHR '' '') @ ''b'') \<noteq>
     spec_signature (''a'' @ replicate 150 (CHR '' '') @ ''c'') \<and>
   section_signature (''a'' @ replicate 150 (CHR '' '') @ ''b'') =
     section_signature (''a'' @ replicate 150 (CHR '' '') @ ''c'') \<and>
   deduplicate ((''a'' @ replicate 150 (CHR '' '') @ ''b'') @ ''\<newline>\<newline>'' @
                (''a'' @ replicate 150 (CHR '' '') @ ''c'')) =
     ''a'' @ replicate 150 (CHR '' '') @ ''b''"
proof -
  let ?A = "''a'' @ replicate 150 (CHR '' '') @ ''b''"
  let ?B = "''a'' @ replicate 150 (CHR '' '') @ ''c''"
  let ?C = "?A @ ''\<newline>\<newline>'' @ ?B"
  have b: "\<not> is_space (CHR ''b'')" "lower_char (CHR ''b'') = CHR ''b''"
    and c: "\<not> is_space (CHR ''c'')" "lower_char (CHR ''c'') = CHR ''c''"
    and nl: "is_space (CHR 0x0A)"
    by (simp_all add: is_space_def lower_char_def)
  have 1: "spec_signature ?A \<noteq> spec_signature ?B"
    unfolding spec_signature_def gap_normalized [OF b] gap_normalized [OF c] by simp
  have 2: "section_signature ?A = section_signature ?B"
    unfolding gap_signature [OF b] gap_signature [OF c] ..
  have "trimmed ?C"
    by (simp add: trimmed_def is_space_def)
  then have content: "trim ?C = ?C" by (rule trim_trimmed)
  have mid: "length ?C div 2 = 153" by simp
  have "substring ?C 0 153 = [] @ ?A @ ''\<newline>''"
    by (simp add: substring_from_start)
  moreover have "trim ([] @ ?A @ ''\<newline>'') = ?A"
    by (rule trim_padded) (simp_all add: trimmed_def is_space_def)
  ultimately have first: "trim (substring ?C 0 153) = ?A" by simp
  have "drop 153 ?C = ''\<newline>'' @ ?B @ []"
    by simp
  moreover have "trim (''\<newline>'' @ ?B @ []) = ?B"
    by (rule trim_padded) (simp_all add: trimmed_def is_space_def)
  ultimately have second: "trim (drop 153 ?C) = ?B" by simp
  have "deduplicate ?C = dedupe_paragraphs ?C"
    unfolding deduplicate_def Let_def content mid first second gap_similarity by simp
  then have 3: "deduplicate ?C = ?A"
    by (simp only: gap_paragraphs)
  from 1 2 3 show ?thesis by blast
qed

text \<open>
  Claim C7 says that for a text \<open>A + A\<close> with \<open>A\<close> longer than 100 characters the output
  is \<open>A\<close>.  The halves are compared after trimming: for \<open>A\<close> of 100 letters and one
  space, 101 characters, each trimmed half has 100 characters, the check does not apply
  and the doubled text stays.
\<close>

theorem short_core_kept_double:
  "length (replicate 100 (CHR ''x'') @ '' '') > 100 \<and>
   deduplicate ((replicate 100 (CHR ''x'') @ '' '') @ (replicate 100 (CHR ''x'') @ '' '')) =
     replicate 100 (CHR ''x'') @ '' '' @ replicate 100 (CHR ''x'')"
proof -
  let ?X = "replicate 100 (CHR ''x'')"
  let ?C = "?X @ '' '' @ ?X"
  have sp: "is_space (CHR '' '')" and nx: "\<not> is_space (CHR ''x'')"
    by (simp_all add: is_space_def)
  have tc: "trimmed ?C" and tx: "trimmed ?X"
    using nx by (simp_all add: trimmed_def)
  have "(?X @ '' '') @ (?X @ '' '') = [] @ ?C @ '' ''" by simp
  moreover have "trim ([] @ ?C @ '' '') = ?C"
    using tc by (rule trim_padded) (simp_all add: sp)
  ultimately have content: "trim ((?X @ '' '') @ (?X @ '' '')) = ?C" by simp
  have mid: "length ?C div 2 = 100" by simp
  have first: "trim (substring ?C 0 100) = ?X"
    using trim_trimmed [OF tx] by (simp add: substring_from_start)
  have n: "CHR 0x0A \<notin> set ?C" by simp
  have "deduplicate ((?X @ '' '') @ (?X @ '' '')) = dedupe_paragraphs ?C"
    unfolding deduplicate_def Let_def content mid first by simp
  also have "\<dots> = ?C" using n by (rule dedupe_paragraphs_plain)
  finally show ?thesis by simp
qed

text \<open>
  Claim C7, amended: when the two trimmed halves of the trimmed text are each longer than
  100 characters and their similarity exceeds 0.8, the corrected text is the trimmed
  first half and the paragraph-level check is not run; the text that is stored is the
  Formula Normalizer applied to it.  In particular, for a text \<open>A + A\<close> where \<open>A\<close> without
  its leading and trailing white space is longer than 100 characters, the corrected
  text is \<open>A\<close> without that white space.
\<close>

theorem halves_check:
  "(let content = trim lastContent;
        midPoint = length content div 2;
        firstHalf = trim (substring content 0 midPoint);
        secondHalf = trim (drop midPoint content)
    in length firstHalf > 100 \<and> length secondHalf > 100 \<and>
       calculateSimilarity firstHalf secondHalf > 8 / 10 \<longrightarrow>
       deduplicate lastContent = firstHalf \<and>
       (lastContent \<noteq> [] \<longrightarrow> onDone_content lastContent = cleanLaTeX firstHalf)) \<and>
   (length (trim a) > 100 \<longrightarrow> deduplicate (a @ a) = trim a)"
  using deduplicate_doubled [of a]
  by (simp add: deduplicate_def onDone_content_def Let_def)

theorem halves_check_witness:
  "length (trim (replicate 101 (CHR ''x'') @ '' '')) > 100 \<and>
   deduplicate ((replicate 101 (CHR ''x'') @ '' '') @ (replicate 101 (CHR ''x'') @ '' '')) =
     replicate 101 (CHR ''x'') \<and>
   onDone_content ((replicate 101 (CHR ''x'') @ '' '') @ (replicate 101 (CHR ''x'') @ '' '')) =
     cleanLaTeX (replicate 101 (CHR ''x''))"
proof -
  let ?X = "replicate 101 (CHR ''x'')"
  let ?a = "?X @ '' ''"
  have "\<not> is_space (CHR ''x'')" by (simp add: is_space_def)
  then have "trimmed ?X" by (simp add: trimmed_def)
  then have "trim ([] @ ?X @ '' '') = ?X"
    by (rule trim_padded) (simp_all add: is_space_def)
  then have t: "trim ?a = ?X" by simp
  then have ne: "trim ?a \<noteq> []" by simp
  have h: "length (trim ?a) > 100" unfolding t by simp
  have c: "length (trim (substring (trim (?a @ ?a)) 0 (length (trim (?a @ ?a)) div 2))) > 100 \<and>
      length (trim (drop (length (trim (?a @ ?a)) div 2) (trim (?a @ ?a)))) > 100 \<and>
      calculateSimilarity
        (trim (substring (trim (?a @ ?a)) 0 (length (trim (?a @ ?a)) div 2)))
        (trim (drop (length (trim (?a @ ?a)) div 2) (trim (?a @ ?a)))) > 8 / 10"
    unfolding doubled_halves [OF ne] similarity_self [OF ne] using h by simp
  have n: "?a @ ?a \<noteq> []" by simp
  from halves_check [of "?a @ ?a" ?a] c h n
  have "deduplicate (?a @ ?a) = trim ?a \<and> onDone_content (?a @ ?a) = cleanLaTeX (trim ?a)"
    unfolding Let_def doubled_halves [OF ne] by blast
  with h show ?thesis unfolding t by blast
qed

section \<open>Properties of the Formula Normalizer\<close>





























lemma dollar_free_hd: "dollar_free p \<Longrightarrow> p \<noteq> [] \<Longrightarrow> hd p \<noteq> CHR ''$''"
  by (cases p) (auto simp: dollar_free_def)

























text \<open>
  Claim C9 says that a second pass of the normalizer changes nothing.  The application
  makes that second pass: the completion handler stores the normalized text, and the
  message bubble normalizes the stored text again whenever it renders the message.  On
  an inline formula followed by a block formula Pattern 2 of Step 2 takes the closing
  delimiter of the inline formula, the text behind it and the opening delimiter of the
  block formula for an inline span with a doubled closing delimiter, and Pattern 3 then
  closes the delimiter that is left over.  The second pass changes the result of the
  first, so the bubble shows another text than the stored one.
\<close>

theorem second_pass_changes_text:
  "cleanLaTeX ''$x$ and $$y$$'' = ''$x$ and $y$$$$'' \<and>
   cleanLaTeX (cleanLaTeX ''$x$ and $$y$$'') = ''$x$ and $y$$$'' \<and>
   cleanLaTeX (cleanLaTeX ''$x$ and $$y$$'') \<noteq> cleanLaTeX ''$x$ and $$y$$'' \<and>
   onDone_content (''<<<x>>> and <<<'' @ BS @ ''frac{1}{2}>>>'') =
     ''$x$ and $'' @ BS @ ''frac{1}{2}$$$$'' \<and>
   cleanedContent True (onDone_content (''<<<x>>> and <<<'' @ BS @ ''frac{1}{2}>>>'')) =
     ''$x$ and $'' @ BS @ ''frac{1}{2}$$$''"
  by code_simp

end
